theory Spec2Isabelle
  imports Main
begin

section \<open>Data model of the runtime container\<close>

text \<open>
  Tokens are the opaque strings handed to \<^verbatim>\<open>make\<close>, \<^verbatim>\<open>provide\<close> and \<^verbatim>\<open>bind\<close>.
  A class hint is a reference to a constructor function; scopes (instances of
  \<^verbatim>\<open>RuntimeContainer\<close>) are objects with identity and live in a store indexed by
  a scope id.
\<close>

type_synonym token = string
type_synonym class_ref = nat
type_synonym sid = nat

text \<open>
  Runtime values: \<^verbatim>\<open>undefined\<close>, a reference to an ordinary object on the heap, or a
  reference to a proxy built by \<^verbatim>\<open>lazy\<close>. The module-level \<^verbatim>\<open>WeakSet lazies\<close> holds
  exactly the proxies \<^verbatim>\<open>lazy\<close> has returned, so membership in it is being a
  \<open>Lazy\<close> reference.
\<close>

datatype val = Undefined | Obj nat | Lazy nat

fun isLazy :: "val \<Rightarrow> bool" where
  "isLazy (Lazy l) = True"
| "isLazy v = False"

datatype exn = Error string | TypeError | Thrown nat

type_synonym ('w, 'a) outcome = "('w \<times> (exn + 'a)) option"

text \<open>
  \<^verbatim>\<open>BindOptions\<close> is an object that may carry the key \<^verbatim>\<open>singleton\<close> (a boolean)
  and the key \<^verbatim>\<open>pool\<close> (a number; integer capacities are modelled). A key that is
  absent is \<open>None\<close>.
\<close>

record BindOptions =
  singleton :: "bool option"
  pool :: "int option"

text \<open>
  A provider is a function \<^verbatim>\<open>(container, classHint) => T\<close>. Its body is modelled as
  a program that may call \<^verbatim>\<open>container.make(token, hint)\<close> any number of times,
  continuing with each result, and ends by returning a value, by returning a newly
  constructed object holding the given values, or by throwing. Providers that catch
  exceptions, register providers or operate on the values they receive are outside
  the model.
\<close>

datatype prog =
    Make token "class_ref option" "val \<Rightarrow> prog"
  | New "class_ref option" "val list"
  | Return val
  | Throw exn

type_synonym provider = "class_ref option \<Rightarrow> prog"

record object =
  cls :: "class_ref option"
  slots :: "val list"

text \<open>
  The closure built by \<^verbatim>\<open>lazy(() => this.make(token, classHint))\<close>: the captured
  scope, token and hint of the factory, and the two local variables of \<^verbatim>\<open>lazy\<close>.
\<close>

record lazy_cell =
  inst :: val
  initialized :: bool

record placeholder =
  thunk_scope :: sid
  thunk_token :: token
  thunk_hint :: "class_ref option"
  cell :: lazy_cell

record scope =
  parent :: "sid option"
  providers :: "token \<rightharpoonup> provider"
  hints :: "token \<rightharpoonup> class_ref"
  bindings :: "token \<rightharpoonup> token"
  bindOptions :: "token \<rightharpoonup> BindOptions"
  makeStack :: "token list"
  pools :: "token \<rightharpoonup> val list"

record state =
  scopes :: "sid \<Rightarrow> scope"
  nextScope :: sid
  heap :: "object list"
  lazies :: "placeholder list"

definition new_scope :: "sid option \<Rightarrow> scope" where
  "new_scope p = \<lparr>parent = p, providers = Map.empty, hints = Map.empty,
     bindings = Map.empty, bindOptions = Map.empty, makeStack = [], pools = Map.empty\<rparr>"

definition upd_scope :: "sid \<Rightarrow> (scope \<Rightarrow> scope) \<Rightarrow> state \<Rightarrow> state" where
  "upd_scope s f st = st\<lparr>scopes := (scopes st)(s := f (scopes st s))\<rparr>"

definition init :: state where
  "init = \<lparr>scopes = (\<lambda>_. new_scope None), nextScope = 0, heap = [], lazies = []\<rparr>"

section \<open>Registration and scopes\<close>

text \<open>\<^verbatim>\<open>Container.create()\<close> and \<^verbatim>\<open>inner()\<close>: \<^verbatim>\<open>new RuntimeContainer(parent)\<close>.\<close>

definition create :: "state \<Rightarrow> sid \<times> state" where
  "create st = (nextScope st,
     st\<lparr>scopes := (scopes st)(nextScope st := new_scope None), nextScope := Suc (nextScope st)\<rparr>)"

definition inner :: "sid \<Rightarrow> state \<Rightarrow> sid \<times> state" where
  "inner this st = (nextScope st,
     st\<lparr>scopes := (scopes st)(nextScope st := new_scope (Some this)),
        nextScope := Suc (nextScope st)\<rparr>)"

definition provide :: "sid \<Rightarrow> token \<Rightarrow> provider \<Rightarrow> BindOptions option \<Rightarrow> state \<Rightarrow> state" where
  "provide this tok prov opts st =
     upd_scope this (\<lambda>sc. sc\<lparr>providers := (providers sc)(tok \<mapsto> prov),
                            bindOptions := (bindOptions sc)(tok := opts)\<rparr>) st"

definition bind :: "sid \<Rightarrow> BindOptions option \<Rightarrow> token \<Rightarrow> token \<Rightarrow> class_ref option \<Rightarrow> state \<Rightarrow> state" where
  "bind this opts abstractToken concreteToken concreteClassHint st =
     upd_scope this (\<lambda>sc. sc\<lparr>
        bindings := (if abstractToken \<noteq> concreteToken
                     then (bindings sc)(abstractToken \<mapsto> concreteToken) else bindings sc),
        hints := (case concreteClassHint of
                    Some h \<Rightarrow> (hints sc)(concreteToken \<mapsto> h) | None \<Rightarrow> hints sc),
        bindOptions := (bindOptions sc)(abstractToken := opts)\<rparr>) st"

section \<open>Resolution\<close>

text \<open>
  The capacity \<^verbatim>\<open>pool\<close> computed at the top of \<^verbatim>\<open>make\<close>: decided by the presence of
  the keys, \<^verbatim>\<open>"singleton" in options\<close> first.
\<close>

definition capacity :: "BindOptions option \<Rightarrow> int option" where
  "capacity options =
     (case options of
        None \<Rightarrow> None
      | Some opts \<Rightarrow>
          (if singleton opts \<noteq> None then Some 1
           else if pool opts \<noteq> None then pool opts
           else None))"

definition caching :: "int option \<Rightarrow> bool" where
  "caching p = (case p of None \<Rightarrow> False | Some c \<Rightarrow> c > 0)"

text \<open>\<^verbatim>\<open>token.split("@").shift()\<close>: the part of the token before its first \<^verbatim>\<open>@\<close>.\<close>

definition display_name :: "token \<Rightarrow> string" where
  "display_name tok = takeWhile (\<lambda>c. c \<noteq> CHR ''@'') tok"

text \<open>
  \<^verbatim>\<open>const binding = this.#bindings.get(token); if (binding) ...\<close>: the alias that
  \<^verbatim>\<open>#make\<close> follows. The test is for truthiness, so an alias to the empty string is
  not followed.
\<close>

definition alias_of :: "scope \<Rightarrow> token \<Rightarrow> token option" where
  "alias_of sc tok =
     (case bindings sc tok of None \<Rightarrow> None | Some binding \<Rightarrow> if binding = [] then None else Some binding)"

definition lazy :: "sid \<Rightarrow> token \<Rightarrow> class_ref option \<Rightarrow> state \<Rightarrow> val \<times> state" where
  "lazy this tok classHint st =
     (Lazy (length (lazies st)),
      st\<lparr>lazies := lazies st @ [\<lparr>thunk_scope = this, thunk_token = tok, thunk_hint = classHint,
                                 cell = \<lparr>inst = Undefined, initialized = False\<rparr>\<rparr>]\<rparr>)"

definition alloc :: "object \<Rightarrow> state \<Rightarrow> val \<times> state" where
  "alloc ob st = (Obj (length (heap st)), st\<lparr>heap := heap st @ [ob]\<rparr>)"

text \<open>
  \<^verbatim>\<open>make\<close>, \<^verbatim>\<open>#make\<close> and the execution of a provider call each other. The first
  argument bounds the depth of the calls: \<open>None\<close> means that the bound was too small
  (the JavaScript would still be running). An exception is \<open>Inl\<close>; the state is
  returned in both cases, as the mutations made before a throw persist.

  In \<^verbatim>\<open>make\<close>, \<open>st1\<close> is the state after \<^verbatim>\<open>this.#pool.set(token, [])\<close> for a token with
  no cache yet; recycling is \<^verbatim>\<open>pop\<close> followed by \<^verbatim>\<open>unshift\<close>. After \<^verbatim>\<open>#make\<close> the cache
  is read again, \<^verbatim>\<open>this.#pool.get(token)!\<close>; were the entry gone, reading its length
  would throw a \<^verbatim>\<open>TypeError\<close>. In \<^verbatim>\<open>#make\<close>, an alias is followed by \<^verbatim>\<open>this.make(binding)\<close>,
  on the scope that holds the alias and without class hint; the placeholder of a cycle
  captures that scope too; the provider is called with \<open>container\<close>, the scope the
  resolution started on; and the \<^verbatim>\<open>finally\<close> pops the stack whatever came back.
\<close>

fun make :: "nat \<Rightarrow> state \<Rightarrow> sid \<Rightarrow> token \<Rightarrow> class_ref option \<Rightarrow> (state, val) outcome"
and make_priv :: "nat \<Rightarrow> state \<Rightarrow> sid \<Rightarrow> token \<Rightarrow> sid \<Rightarrow> class_ref option \<Rightarrow> (state, val) outcome"
and run :: "nat \<Rightarrow> state \<Rightarrow> sid \<Rightarrow> prog \<Rightarrow> (state, val) outcome"
where
  "make 0 st this tok classHint = None"
| "make (Suc n) st this tok classHint =
     (let options = bindOptions (scopes st this) tok;
          pool = capacity options
      in if caching pool then
           (let st1 = (case pools (scopes st this) tok of
                         None \<Rightarrow> upd_scope this (\<lambda>sc. sc\<lparr>pools := (pools sc)(tok \<mapsto> [])\<rparr>) st
                       | Some _ \<Rightarrow> st);
                instances = (case pools (scopes st this) tok of None \<Rightarrow> [] | Some is \<Rightarrow> is)
            in if int (length instances) \<ge> the pool then
                 Some (upd_scope this
                         (\<lambda>sc. sc\<lparr>pools := (pools sc)(tok \<mapsto> last instances # butlast instances)\<rparr>) st1,
                       Inr (last instances))
               else
                 (case make_priv n st1 this tok this classHint of
                    None \<Rightarrow> None
                  | Some (st2, Inl e) \<Rightarrow> Some (st2, Inl e)
                  | Some (st2, Inr result) \<Rightarrow>
                      (case pools (scopes st2 this) tok of
                         None \<Rightarrow> Some (st2, Inl TypeError)
                       | Some instances2 \<Rightarrow>
                           if \<not> isLazy result \<and> int (length instances2) < the pool
                           then Some (upd_scope this
                                        (\<lambda>sc. sc\<lparr>pools := (pools sc)(tok \<mapsto> result # instances2)\<rparr>) st2,
                                      Inr result)
                           else Some (st2, Inr result))))
         else make_priv n st this tok this classHint)"
| "make_priv 0 st this tok container classHint = None"
| "make_priv (Suc n) st this tok container classHint =
     (case alias_of (scopes st this) tok of
        Some binding \<Rightarrow> make n st this binding None
      | None \<Rightarrow>
         if tok \<in> set (makeStack (scopes st this)) then
           (case lazy this tok classHint st of (p, st1) \<Rightarrow> Some (st1, Inr p))
         else
           (let st1 = upd_scope this (\<lambda>sc. sc\<lparr>makeStack := makeStack sc @ [tok]\<rparr>) st;
                r = (case providers (scopes st1 this) tok of
                       None \<Rightarrow>
                         (case parent (scopes st1 this) of
                            Some p \<Rightarrow> make_priv n st1 p tok container classHint
                          | None \<Rightarrow> Some (st1, Inl (Error (''No provider for '' @ display_name tok))))
                     | Some provider \<Rightarrow>
                         run n st1 container
                           (provider (case classHint of
                                        Some h \<Rightarrow> Some h
                                      | None \<Rightarrow> hints (scopes st1 this) tok)))
            in case r of
                 None \<Rightarrow> None
               | Some (st2, res) \<Rightarrow>
                   Some (upd_scope this (\<lambda>sc. sc\<lparr>makeStack := butlast (makeStack sc)\<rparr>) st2, res)))"
| "run 0 st container p = None"
| "run (Suc n) st container (Return v) = Some (st, Inr v)"
| "run (Suc n) st container (Throw e) = Some (st, Inl e)"
| "run (Suc n) st container (New c args) =
     (case alloc \<lparr>cls = c, slots = args\<rparr> st of (v, st1) \<Rightarrow> Some (st1, Inr v))"
| "run (Suc n) st container (Make tok h k) =
     (case make n st container tok h of
        None \<Rightarrow> None
      | Some (st1, Inl e) \<Rightarrow> Some (st1, Inl e)
      | Some (st1, Inr v) \<Rightarrow> run n st1 container (k v))"


text \<open>
  A client that performs top-level \<^verbatim>\<open>make\<close> calls one after the other, catching what
  each one throws, and collects the outcomes.
\<close>

fun makes :: "nat \<Rightarrow> state \<Rightarrow> (sid \<times> token) list \<Rightarrow> (exn + val) list option" where
  "makes n st [] = Some []"
| "makes n st ((s, tok) # cs) =
     (case make n st s tok None of
        None \<Rightarrow> None
      | Some (st1, r) \<Rightarrow> map_option ((#) r) (makes n st1 cs))"

section \<open>The forwarding proxy\<close>

text \<open>
  \<^verbatim>\<open>lazy(factory)\<close> for any factory, over any world \<open>'w\<close> the factory may change.
  The thirteen traps of the handler are the operations; each, when it runs, ends in the
  \<^verbatim>\<open>Reflect\<close> call of the same name on the value \<^verbatim>\<open>get()\<close> returned, recorded here as the target
  and the operation passed on (what \<^verbatim>\<open>Reflect\<close> then does to the target is outside the
  model, as is the wrapper the \<^verbatim>\<open>get\<close> trap puts around a function-valued result).
  The payload of an operation is the property key and the receiver or \<^verbatim>\<open>this\<close> argument.

  The proxy wraps the plain object \<^verbatim>\<open>{}\<close>, which is neither callable nor constructible:
  \<^verbatim>\<open>p()\<close> and \<^verbatim>\<open>new p()\<close> throw a \<^verbatim>\<open>TypeError\<close> before the \<^verbatim>\<open>apply\<close> or \<^verbatim>\<open>construct\<close>
  trap could run, so these two operations never call the factory.
\<close>

datatype trap =
    Apply val
  | Construct
  | DefineProperty string
  | DeleteProperty string
  | Get string val
  | GetOwnPropertyDescriptor string
  | GetPrototypeOf
  | Has string
  | IsExtensible
  | OwnKeys
  | PreventExtensions
  | Set string val
  | SetPrototypeOf

datatype reflect = Reflect val trap

type_synonym 'w factory = "'w \<Rightarrow> ('w, val) outcome"

definition get :: "'w factory \<Rightarrow> lazy_cell \<times> 'w \<Rightarrow> (lazy_cell \<times> 'w, val) outcome" where
  "get factory cw =
     (case cw of (c, w) \<Rightarrow>
        if \<not> initialized c then
          (case factory w of
             None \<Rightarrow> None
           | Some (w1, Inl e) \<Rightarrow> Some ((c, w1), Inl e)
           | Some (w1, Inr v) \<Rightarrow> Some ((c\<lparr>inst := v\<rparr>, w1), Inr v))
        else Some ((c, w), Inr (inst c)))"

text \<open>\<^verbatim>\<open>receiver === proxy ? get() : receiver\<close>, evaluated after the target.\<close>

definition substitute :: "'w factory \<Rightarrow> val \<Rightarrow> val \<Rightarrow> lazy_cell \<times> 'w \<Rightarrow> (lazy_cell \<times> 'w, val) outcome" where
  "substitute factory proxy receiver cw =
     (if receiver = proxy then get factory cw else Some (cw, Inr receiver))"

fun handler :: "'w factory \<Rightarrow> val \<Rightarrow> trap \<Rightarrow> lazy_cell \<times> 'w \<Rightarrow> (lazy_cell \<times> 'w, reflect) outcome" where
  "handler factory proxy (Apply thisArg) cw = Some (cw, Inl TypeError)"
| "handler factory proxy Construct cw = Some (cw, Inl TypeError)"
| "handler factory proxy (Get p receiver) cw =
     (case get factory cw of
        None \<Rightarrow> None
      | Some (cw1, Inl e) \<Rightarrow> Some (cw1, Inl e)
      | Some (cw1, Inr target) \<Rightarrow>
          (case substitute factory proxy receiver cw1 of
             None \<Rightarrow> None
           | Some (cw2, Inl e) \<Rightarrow> Some (cw2, Inl e)
           | Some (cw2, Inr r) \<Rightarrow> Some (cw2, Inr (Reflect target (Get p r)))))"
| "handler factory proxy (Set p receiver) cw =
     (case get factory cw of
        None \<Rightarrow> None
      | Some (cw1, Inl e) \<Rightarrow> Some (cw1, Inl e)
      | Some (cw1, Inr target) \<Rightarrow>
          (case substitute factory proxy receiver cw1 of
             None \<Rightarrow> None
           | Some (cw2, Inl e) \<Rightarrow> Some (cw2, Inl e)
           | Some (cw2, Inr r) \<Rightarrow> Some (cw2, Inr (Reflect target (Set p r)))))"
| "handler factory proxy t cw =
     (case get factory cw of
        None \<Rightarrow> None
      | Some (cw1, Inl e) \<Rightarrow> Some (cw1, Inl e)
      | Some (cw1, Inr target) \<Rightarrow> Some (cw1, Inr (Reflect target t)))"

text \<open>
  An operation on the proxy \<open>Lazy l\<close> that \<^verbatim>\<open>#make\<close> built: the factory is
  \<^verbatim>\<open>() => this.make(token, classHint)\<close> with the captured scope, token and hint.
\<close>

definition trap_on :: "nat \<Rightarrow> nat \<Rightarrow> trap \<Rightarrow> state \<Rightarrow> (state, reflect) outcome" where
  "trap_on n l t st =
     (let ph = lazies st ! l
      in case handler (\<lambda>w. make n w (thunk_scope ph) (thunk_token ph) (thunk_hint ph))
                (Lazy l) t (cell ph, st) of
           None \<Rightarrow> None
         | Some ((c, st1), r) \<Rightarrow>
             Some (st1\<lparr>lazies := (lazies st1)[l := (lazies st1 ! l)\<lparr>cell := c\<rparr>]\<rparr>, r))"

section \<open>States a program can reach\<close>

inductive reachable :: "state \<Rightarrow> bool" where
  r_init: "reachable init"
| r_create: "reachable st \<Longrightarrow> reachable (snd (create st))"
| r_inner: "reachable st \<Longrightarrow> this < nextScope st \<Longrightarrow> reachable (snd (inner this st))"
| r_provide: "reachable st \<Longrightarrow> this < nextScope st \<Longrightarrow> reachable (provide this tok prov opts st)"
| r_bind: "reachable st \<Longrightarrow> this < nextScope st \<Longrightarrow> reachable (bind this opts a c h st)"
| r_make: "reachable st \<Longrightarrow> this < nextScope st \<Longrightarrow> make n st this tok h = Some (st1, r)
           \<Longrightarrow> reachable st1"
| r_trap: "reachable st \<Longrightarrow> l < length (lazies st) \<Longrightarrow> trap_on n l t st = Some (st1, r)
           \<Longrightarrow> reachable st1"

text \<open>
  \<open>later st st'\<close>: the program gets from \<open>st\<close> to \<open>st'\<close> by \<^verbatim>\<open>make\<close> calls, on any scopes
  and tokens and whatever they return or throw, and by operations on placeholders.
\<close>

inductive later :: "state \<Rightarrow> state \<Rightarrow> bool" where
  later_refl: "later st st"
| later_make: "later st st1 \<Longrightarrow> make n st1 this tok h = Some (st2, r) \<Longrightarrow> later st st2"
| later_trap: "later st st1 \<Longrightarrow> l < length (lazies st1) \<Longrightarrow> trap_on n l t st1 = Some (st2, r)
               \<Longrightarrow> later st st2"

section \<open>Observations of a state\<close>

text \<open>The resolution stacks of all scopes, and their parent links and aliases.\<close>

definition stacks :: "state \<Rightarrow> sid \<Rightarrow> token list" where
  "stacks st = (\<lambda>p. makeStack (scopes st p))"

definition parents :: "state \<Rightarrow> sid \<Rightarrow> sid option" where
  "parents st = (\<lambda>p. parent (scopes st p))"

definition aliases :: "state \<Rightarrow> sid \<Rightarrow> token \<Rightarrow> token option" where
  "aliases st = (\<lambda>p. alias_of (scopes st p))"

text \<open>The cache policies of all scopes.\<close>

definition policies :: "state \<Rightarrow> sid \<Rightarrow> token \<rightharpoonup> BindOptions" where
  "policies st = (\<lambda>p. bindOptions (scopes st p))"

text \<open>\<open>on_chain par s p\<close>: following the parent links \<open>par\<close>, \<open>p\<close> is \<open>s\<close> or one of its ancestors.\<close>

inductive on_chain :: "(sid \<Rightarrow> sid option) \<Rightarrow> sid \<Rightarrow> sid \<Rightarrow> bool" where
  chain_self: "on_chain par s s"
| chain_parent: "on_chain par s q \<Longrightarrow> par q = Some p \<Longrightarrow> on_chain par s p"

text \<open>The instance caches of all scopes but \<open>c\<close>.\<close>

definition other_pools :: "sid \<Rightarrow> state \<Rightarrow> sid \<Rightarrow> token \<rightharpoonup> val list" where
  "other_pools c st = (\<lambda>p. if p = c then Map.empty else pools (scopes st p))"

text \<open>
  A scope with its cache policies and caches erased, and the state in which this is
  done to all scopes but \<open>c\<close>.
\<close>

definition erase :: "scope \<Rightarrow> scope" where
  "erase sc = sc\<lparr>bindOptions := Map.empty, pools := Map.empty\<rparr>"

definition mask :: "sid \<Rightarrow> state \<Rightarrow> state" where
  "mask c st = st\<lparr>scopes := (\<lambda>p. if p = c then scopes st p else erase (scopes st p))\<rparr>"

text \<open>No cache entry of \<open>st\<close> is missing in \<open>st'\<close>; no cache holds a placeholder.\<close>

definition keeps :: "state \<Rightarrow> state \<Rightarrow> bool" where
  "keeps st st' = (\<forall>p t. pools (scopes st p) t \<noteq> None \<longrightarrow> pools (scopes st' p) t \<noteq> None)"

definition pools_ok :: "state \<Rightarrow> bool" where
  "pools_ok st = (\<forall>p t is. pools (scopes st p) t = Some is \<longrightarrow> (\<forall>v \<in> set is. \<not> isLazy v))"

section \<open>Resolution as the specification describes it\<close>

text \<open>
  What a \<^verbatim>\<open>make\<close> call resolves to, following the steps of the specification: the
  requested token's own cache policy first (a full cache is recycled); then the alias,
  through \<^verbatim>\<open>make\<close> again; then the in-flight stack (a cycle is short-circuited by a
  placeholder); then the provider of the scope, else the same steps on the parent, else
  no provider is found. On finding a provider it records the call the engine is to
  make: the depth bound left, the state, the container handed over and the body.

  The specification does not say on which scope \<^verbatim>\<open>make\<close> is invoked again when the
  alias is found on an ancestor. \<open>spec_resolve\<close> continues on the scope that holds the
  alias, as the code does. \<open>spec_lookup\<close> further down continues on the scope the call
  was made on, the one the provider is handed, which is what the specification's rule
  that policies and caches are local to that scope asks for. \<open>ancestor_alias\<close> tells
  whether the resolution meets such an alias at all; where it does not, the two agree.
\<close>

datatype resolution =
    Recycled val
  | ShortCircuit val
  | Missing token
  | Invoke nat state sid prog

fun spec_resolve :: "nat \<Rightarrow> state \<Rightarrow> sid \<Rightarrow> token \<Rightarrow> class_ref option \<Rightarrow> resolution option"
and spec_step :: "nat \<Rightarrow> state \<Rightarrow> sid \<Rightarrow> token \<Rightarrow> sid \<Rightarrow> class_ref option \<Rightarrow> resolution option"
where
  "spec_resolve 0 st this tok classHint = None"
| "spec_resolve (Suc n) st this tok classHint =
     (case capacity (bindOptions (scopes st this) tok) of
        None \<Rightarrow> spec_step n st this tok this classHint
      | Some cap \<Rightarrow>
          if cap \<le> 0 then spec_step n st this tok this classHint
          else (case pools (scopes st this) tok of
                  None \<Rightarrow> spec_step n
                            (upd_scope this (\<lambda>sc. sc\<lparr>pools := (pools sc)(tok \<mapsto> [])\<rparr>) st)
                            this tok this classHint
                | Some cached \<Rightarrow>
                    if cap \<le> int (length cached) then Some (Recycled (last cached))
                    else spec_step n st this tok this classHint))"
| "spec_step 0 st this tok container classHint = None"
| "spec_step (Suc n) st this tok container classHint =
     (case alias_of (scopes st this) tok of
        Some target \<Rightarrow> spec_resolve n st this target None
      | None \<Rightarrow>
        if tok \<in> set (makeStack (scopes st this))
        then Some (ShortCircuit (Lazy (length (lazies st))))
        else (let st1 = upd_scope this (\<lambda>sc. sc\<lparr>makeStack := makeStack sc @ [tok]\<rparr>) st
            in case providers (scopes st this) tok of
                 Some provider \<Rightarrow>
                   Some (Invoke n st1 container
                           (provider (case classHint of
                                        Some h \<Rightarrow> Some h
                                      | None \<Rightarrow> hints (scopes st this) tok)))
               | None \<Rightarrow>
                   (case parent (scopes st this) of
                      Some p \<Rightarrow> spec_step n st1 p tok container classHint
                    | None \<Rightarrow> Some (Missing tok))))"

text \<open>The outcome the specification attaches to each resolution.\<close>

definition spec_outcome :: "resolution option \<Rightarrow> (exn + val) option" where
  "spec_outcome res =
     (case res of
        None \<Rightarrow> None
      | Some (Recycled v) \<Rightarrow> Some (Inr v)
      | Some (ShortCircuit v) \<Rightarrow> Some (Inr v)
      | Some (Missing tok) \<Rightarrow> Some (Inl (Error (''No provider for '' @ display_name tok)))
      | Some (Invoke m st1 container body) \<Rightarrow> map_option snd (run m st1 container body))"

definition missing_provider_error :: "(exn + val) option \<Rightarrow> bool" where
  "missing_provider_error r =
     (case r of Some (Inl (Error msg)) \<Rightarrow> take 16 msg = ''No provider for '' | _ \<Rightarrow> False)"

definition finds_no_provider :: "resolution option \<Rightarrow> bool" where
  "finds_no_provider res = (case res of Some (Missing tok) \<Rightarrow> True | _ \<Rightarrow> False)"

text \<open>
  The resolution with the alias followed on the scope the call was made on:
  \<open>container\<close> in \<open>spec_walk\<close>, where \<open>this\<close> is the scope whose registry is searched.
\<close>

fun spec_lookup :: "nat \<Rightarrow> state \<Rightarrow> sid \<Rightarrow> token \<Rightarrow> class_ref option \<Rightarrow> resolution option"
and spec_walk :: "nat \<Rightarrow> state \<Rightarrow> sid \<Rightarrow> token \<Rightarrow> sid \<Rightarrow> class_ref option \<Rightarrow> resolution option"
where
  "spec_lookup 0 st this tok classHint = None"
| "spec_lookup (Suc n) st this tok classHint =
     (case capacity (bindOptions (scopes st this) tok) of
        None \<Rightarrow> spec_walk n st this tok this classHint
      | Some cap \<Rightarrow>
          if cap \<le> 0 then spec_walk n st this tok this classHint
          else (case pools (scopes st this) tok of
                  None \<Rightarrow> spec_walk n
                            (upd_scope this (\<lambda>sc. sc\<lparr>pools := (pools sc)(tok \<mapsto> [])\<rparr>) st)
                            this tok this classHint
                | Some cached \<Rightarrow>
                    if cap \<le> int (length cached) then Some (Recycled (last cached))
                    else spec_walk n st this tok this classHint))"
| "spec_walk 0 st this tok container classHint = None"
| "spec_walk (Suc n) st this tok container classHint =
     (case alias_of (scopes st this) tok of
        Some target \<Rightarrow> spec_lookup n st container target None
      | None \<Rightarrow>
        if tok \<in> set (makeStack (scopes st this))
        then Some (ShortCircuit (Lazy (length (lazies st))))
        else (let st1 = upd_scope this (\<lambda>sc. sc\<lparr>makeStack := makeStack sc @ [tok]\<rparr>) st
            in case providers (scopes st this) tok of
                 Some provider \<Rightarrow>
                   Some (Invoke n st1 container
                           (provider (case classHint of
                                        Some h \<Rightarrow> Some h
                                      | None \<Rightarrow> hints (scopes st this) tok)))
               | None \<Rightarrow>
                   (case parent (scopes st this) of
                      Some p \<Rightarrow> spec_walk n st1 p tok container classHint
                    | None \<Rightarrow> Some (Missing tok))))"

text \<open>
  Whether that resolution, before it reaches a cache hit, a cycle, a provider or the
  end of the ancestor chain, finds an alias in the registry of a proper ancestor of
  the scope the call was made on.
\<close>

fun ancestor_alias :: "nat \<Rightarrow> state \<Rightarrow> sid \<Rightarrow> token \<Rightarrow> bool"
and ancestor_alias_walk :: "nat \<Rightarrow> state \<Rightarrow> sid \<Rightarrow> token \<Rightarrow> sid \<Rightarrow> bool"
where
  "ancestor_alias 0 st this tok = False"
| "ancestor_alias (Suc n) st this tok =
     (case capacity (bindOptions (scopes st this) tok) of
        None \<Rightarrow> ancestor_alias_walk n st this tok this
      | Some cap \<Rightarrow>
          if cap \<le> 0 then ancestor_alias_walk n st this tok this
          else (case pools (scopes st this) tok of
                  None \<Rightarrow> ancestor_alias_walk n
                            (upd_scope this (\<lambda>sc. sc\<lparr>pools := (pools sc)(tok \<mapsto> [])\<rparr>) st)
                            this tok this
                | Some cached \<Rightarrow>
                    if cap \<le> int (length cached) then False
                    else ancestor_alias_walk n st this tok this))"
| "ancestor_alias_walk 0 st this tok container = False"
| "ancestor_alias_walk (Suc n) st this tok container =
     (case alias_of (scopes st this) tok of
        Some target \<Rightarrow> if this = container then ancestor_alias n st container target else True
      | None \<Rightarrow>
        if tok \<in> set (makeStack (scopes st this)) then False
        else (let st1 = upd_scope this (\<lambda>sc. sc\<lparr>makeStack := makeStack sc @ [tok]\<rparr>) st
            in case providers (scopes st this) tok of
                 Some provider \<Rightarrow> False
               | None \<Rightarrow>
                   (case parent (scopes st this) of
                      Some p \<Rightarrow> ancestor_alias_walk n st1 p tok container
                    | None \<Rightarrow> False)))"

text \<open>
  Where the exception of a failing provider call comes from: thrown by the provider's
  own code, or by a \<^verbatim>\<open>make\<close> call the provider performs on its container, recorded with
  the depth bound, state, container, token and class hint of that call.
\<close>

datatype origin =
    OwnThrow
  | NestedMake nat state sid token "class_ref option"

fun failure_origin :: "nat \<Rightarrow> state \<Rightarrow> sid \<Rightarrow> prog \<Rightarrow> (origin \<times> exn) option" where
  "failure_origin 0 st container p = None"
| "failure_origin (Suc n) st container (Return v) = None"
| "failure_origin (Suc n) st container (Throw e) = Some (OwnThrow, e)"
| "failure_origin (Suc n) st container (New c args) = None"
| "failure_origin (Suc n) st container (Make tok h k) =
     (case make n st container tok h of
        None \<Rightarrow> None
      | Some (st1, Inl e) \<Rightarrow> Some (NestedMake n st container tok h, e)
      | Some (st1, Inr v) \<Rightarrow> failure_origin n st1 container (k v))"

text \<open>The failure of the provider call a resolution ends in, if it ends in one and that fails.\<close>

definition provider_failure :: "resolution option \<Rightarrow> (origin \<times> exn) option" where
  "provider_failure res =
     (case res of
        Some (Invoke m st1 container body) \<Rightarrow> failure_origin m st1 container body
      | _ \<Rightarrow> None)"

definition is_nested :: "origin \<Rightarrow> bool" where
  "is_nested og = (case og of OwnThrow \<Rightarrow> False | NestedMake n st c tok h \<Rightarrow> True)"

section \<open>Example configurations\<close>

text \<open>\<^verbatim>\<open>const container = Container.create()\<close>: the root scope is scope 0.\<close>

definition root :: state where
  "root = snd (create init)"

text \<open>
  \<^verbatim>\<open>provide("C", () => new C(), {pool: 1}); bind(undefined, "A", "C")\<close> on the root scope.
\<close>

definition alias_demo :: state where
  "alias_demo = bind 0 None ''A'' ''C'' None
     (provide 0 ''C'' (\<lambda>h. New h []) (Some \<lparr>singleton = None, pool = Some 1\<rparr>) root)"

text \<open>
  Two classes that take each other as constructor argument:
  \<^verbatim>\<open>provide("A", (c, K) => new K(c.make("B")))\<close> and
  \<^verbatim>\<open>provide("B", (c, K) => new K(c.make("A")))\<close>.
\<close>

definition cycle_demo :: state where
  "cycle_demo = provide 0 ''B'' (\<lambda>h. Make ''A'' None (\<lambda>a. New h [a])) None
     (provide 0 ''A'' (\<lambda>h. Make ''B'' None (\<lambda>b. New h [b])) None root)"

text \<open>The same two classes, with \<open>B\<close> registered as a singleton.\<close>

definition cycle_singleton_demo :: state where
  "cycle_singleton_demo =
     provide 0 ''B'' (\<lambda>h. Make ''A'' None (\<lambda>a. New h [a]))
       (Some \<lparr>singleton = Some True, pool = None\<rparr>)
       (provide 0 ''A'' (\<lambda>h. Make ''B'' None (\<lambda>b. New h [b])) None root)"

text \<open>A class \<open>A\<close> whose constructor needs a \<open>B\<close> that nobody provides.\<close>

definition dep_demo :: state where
  "dep_demo = provide 0 ''A'' (\<lambda>h. Make ''B'' None (\<lambda>b. New h [b])) None root"

text \<open>A provider that throws, and one that depends on it.\<close>

definition throw_demo :: state where
  "throw_demo = provide 0 ''U'' (\<lambda>h. Make ''T'' None (\<lambda>v. New h [v])) None
     (provide 0 ''T'' (\<lambda>h. Throw (Thrown 7)) None root)"

text \<open>A pool of two on the root scope that holds the instances 0 and 1, the newer first.\<close>

definition full_pool_demo :: state where
  "full_pool_demo =
     upd_scope 0 (\<lambda>sc. sc\<lparr>pools := (pools sc)(''T'' \<mapsto> [Obj 1, Obj 0])\<rparr>)
       (provide 0 ''T'' (\<lambda>h. New h []) (Some \<lparr>singleton = None, pool = Some 2\<rparr>) root)"

text \<open>A singleton on the root scope; the same with a child scope 1 made by \<^verbatim>\<open>inner()\<close>.\<close>

definition singleton_demo :: state where
  "singleton_demo =
     provide 0 ''T'' (\<lambda>h. New h []) (Some \<lparr>singleton = Some True, pool = None\<rparr>) root"

definition scoped_demo :: state where
  "scoped_demo = snd (inner 0 singleton_demo)"

text \<open>
  The root scope aliases \<open>A\<close> to \<open>C\<close> and provides \<open>C\<close> as a singleton; scope 1 is
  its child and registers nothing.
\<close>

definition parent_alias_demo :: state where
  "parent_alias_demo = snd (inner 0 (bind 0 None ''A'' ''C'' None
     (provide 0 ''C'' (\<lambda>h. New h []) (Some \<lparr>singleton = Some True, pool = None\<rparr>) root)))"

text \<open>
  The same root scope with a child that provides \<open>C\<close> itself, as class 1; and a root
  scope that only aliases \<open>A\<close> to \<open>C\<close>, with a child that provides \<open>C\<close>.
\<close>

definition child_provider_demo :: state where
  "child_provider_demo = provide 1 ''C'' (\<lambda>h. New (Some 1) []) None parent_alias_demo"

definition child_only_demo :: state where
  "child_only_demo = provide 1 ''C'' (\<lambda>h. New (Some 1) []) None
     (snd (inner 0 (bind 0 None ''A'' ''C'' None root)))"

text \<open>The two classes that take each other, both registered as singletons.\<close>

definition cycle_singletons_demo :: state where
  "cycle_singletons_demo =
     provide 0 ''B'' (\<lambda>h. Make ''A'' None (\<lambda>a. New h [a]))
       (Some \<lparr>singleton = Some True, pool = None\<rparr>)
       (provide 0 ''A'' (\<lambda>h. Make ''B'' None (\<lambda>b. New h [b]))
          (Some \<lparr>singleton = Some True, pool = None\<rparr>) root)"



text \<open>
  A factory that returns a new object at each call; the world is the number of calls
  made so far. \<open>fresh_cell\<close> is the closure state right after \<^verbatim>\<open>lazy\<close> returns.
\<close>

definition counting_factory :: "nat factory" where
  "counting_factory = (\<lambda>w. Some (Suc w, Inr (Obj w)))"

definition fresh_cell :: lazy_cell where
  "fresh_cell = \<lparr>inst = Undefined, initialized = False\<rparr>"

section \<open>Basic facts\<close>


lemmas eval_defs = root_def provide_def bind_def inner_def create_def init_def new_scope_def
  upd_scope_def caching_def capacity_def alloc_def lazy_def display_name_def alias_of_def Let_def

lemma alias_of_upd [simp]:
  "alias_of (makeStack_update f sc) = alias_of sc"
  "alias_of (pools_update g sc) = alias_of sc"
  "alias_of (providers_update f1 sc) = alias_of sc"
  "alias_of (bindOptions_update f2 sc) = alias_of sc"
  "alias_of (hints_update f3 sc) = alias_of sc"
  by (simp_all add: alias_of_def fun_eq_iff)

lemma alias_of_new [simp]: "alias_of (new_scope p) tok = None"
  by (simp add: alias_of_def new_scope_def)

lemma caching_cases:
  obtains "\<not> caching p" | cap where "p = Some cap" "0 < cap" "caching p"
  by (cases p) (auto simp: caching_def)


subsection \<open>What a call leaves unchanged\<close>

lemma pools_upd_frame:
  "(\<And>sc. pools (f sc) = pools sc) \<Longrightarrow> pools (scopes (upd_scope s f st) p) = pools (scopes st p)"
  by (simp add: upd_scope_def)

lemma stacks_upd_scope:
  "stacks (upd_scope s f st) = (stacks st)(s := makeStack (f (scopes st s)))"
  by (auto simp: stacks_def upd_scope_def)

lemma stacks_lazy: "lazy s tok h st = (v, st') \<Longrightarrow> stacks st' = stacks st"
  by (auto simp: stacks_def lazy_def)

lemma stacks_alloc: "alloc ob st = (v, st') \<Longrightarrow> stacks st' = stacks st"
  by (auto simp: stacks_def alloc_def)

lemma stacks_at: "makeStack (scopes st s) = stacks st s"
  by (simp add: stacks_def)

lemma stacks_aux:
  "(\<forall>st this tok h st' r. make n st this tok h = Some (st', r) \<longrightarrow> stacks st' = stacks st) \<and>
   (\<forall>st this tok c h st' r. make_priv n st this tok c h = Some (st', r) \<longrightarrow> stacks st' = stacks st) \<and>
   (\<forall>st c p st' r. run n st c p = Some (st', r) \<longrightarrow> stacks st' = stacks st)"
proof (induction n)
  case 0
  show ?case by simp
next
  case (Suc n)
  have mk: "\<And>st this tok h st' r. make n st this tok h = Some (st', r) \<Longrightarrow> stacks st' = stacks st"
    using Suc by blast
  have mp: "\<And>st this tok c h st' r. make_priv n st this tok c h = Some (st', r) \<Longrightarrow> stacks st' = stacks st"
    using Suc by blast
  have rn: "\<And>st c p st' r. run n st c p = Some (st', r) \<Longrightarrow> stacks st' = stacks st"
    using Suc by blast
  have A: "stacks st' = stacks st" if "make (Suc n) st this tok h = Some (st', r)" for st this tok h st' r
    using that
    by (auto simp: Let_def stacks_upd_scope stacks_at
        split: if_splits option.splits sum.splits prod.splits dest!: mp)
  have B: "stacks st' = stacks st" if "make_priv (Suc n) st this tok c h = Some (st', r)"
    for st this tok c h st' r
    using that
    by (auto simp: Let_def stacks_upd_scope stacks_at
        split: if_splits option.splits sum.splits prod.splits dest!: mp mk rn stacks_lazy)
  have C: "stacks st' = stacks st" if "run (Suc n) st c p = Some (st', r)" for st c p st' r
    using that
    by (cases p) (auto split: option.splits sum.splits prod.splits dest!: mk rn stacks_alloc)
  show ?case using A B C by blast
qed

lemma keeps_refl [simp]: "keeps st st"
  by (simp add: keeps_def)

lemma keeps_trans: "keeps a b \<Longrightarrow> keeps b c \<Longrightarrow> keeps a c"
  by (simp add: keeps_def)

lemma keeps_add: "keeps st (upd_scope s (\<lambda>sc. sc\<lparr>pools := (pools sc)(t \<mapsto> x)\<rparr>) st)"
  by (simp add: keeps_def upd_scope_def)

lemma keeps_upd_l:
  "(\<And>sc. pools (f sc) = pools sc) \<Longrightarrow> keeps (upd_scope s f st) st' = keeps st st'"
  by (simp add: keeps_def pools_upd_frame)

lemma keeps_upd_r:
  "(\<And>sc. pools (f sc) = pools sc) \<Longrightarrow> keeps st (upd_scope s f st') = keeps st st'"
  by (simp add: keeps_def pools_upd_frame)

lemma keeps_lazy: "lazy s tok h st = (v, st') \<Longrightarrow> keeps st st'"
  by (auto simp: keeps_def lazy_def)

lemma keeps_alloc: "alloc ob st = (v, st') \<Longrightarrow> keeps st st'"
  by (auto simp: keeps_def alloc_def)

lemma keeps_aux:
  "(\<forall>st this tok h st' r. make n st this tok h = Some (st', r) \<longrightarrow> keeps st st') \<and>
   (\<forall>st this tok c h st' r. make_priv n st this tok c h = Some (st', r) \<longrightarrow> keeps st st') \<and>
   (\<forall>st c p st' r. run n st c p = Some (st', r) \<longrightarrow> keeps st st')"
proof (induction n)
  case 0
  show ?case by simp
next
  case (Suc n)
  have mk: "\<And>st this tok h st' r. make n st this tok h = Some (st', r) \<Longrightarrow> keeps st st'"
    using Suc by blast
  have mp: "\<And>st this tok c h st' r. make_priv n st this tok c h = Some (st', r) \<Longrightarrow> keeps st st'"
    using Suc by blast
  have rn: "\<And>st c p st' r. run n st c p = Some (st', r) \<Longrightarrow> keeps st st'"
    using Suc by blast
  have A: "keeps st st'" if "make (Suc n) st this tok h = Some (st', r)" for st this tok h st' r
    using that
    by (auto simp: Let_def split: if_splits option.splits sum.splits prod.splits dest!: mp
         intro: keeps_trans [OF keeps_add] keeps_trans [OF _ keeps_add] keeps_add
                keeps_trans [OF keeps_add keeps_trans [OF _ keeps_add]])
  have B: "keeps st st'" if "make_priv (Suc n) st this tok c h = Some (st', r)"
    for st this tok c h st' r
    using that
    by (auto simp: Let_def keeps_upd_l keeps_upd_r
         split: if_splits option.splits sum.splits prod.splits dest!: mp mk rn keeps_lazy)
  have C: "keeps st st'" if "run (Suc n) st c p = Some (st', r)" for st c p st' r
    using that
    by (cases p) (auto split: option.splits sum.splits prod.splits
          dest!: mk rn keeps_alloc intro: keeps_trans)
  show ?case using A B C by blast
qed

lemma make_priv_keeps_pool:
  "make_priv n st this tok c h = Some (st', r) \<Longrightarrow> pools (scopes st p) t \<noteq> None
     \<Longrightarrow> pools (scopes st' p) t \<noteq> None"
  using keeps_aux [of n] unfolding keeps_def by blast


subsection \<open>Caches hold no placeholder\<close>


lemma pools_ok_upd_frame:
  "(\<And>sc. pools (f sc) = pools sc) \<Longrightarrow> pools_ok (upd_scope s f st) = pools_ok st"
  by (simp add: pools_ok_def pools_upd_frame)

lemma pools_ok_set:
  "pools_ok st \<Longrightarrow> \<forall>v \<in> set is. \<not> isLazy v
     \<Longrightarrow> pools_ok (upd_scope s (\<lambda>sc. sc\<lparr>pools := (pools sc)(t \<mapsto> is)\<rparr>) st)"
  by (auto simp: pools_ok_def upd_scope_def)

lemma pools_ok_at:
  "pools_ok st \<Longrightarrow> pools (scopes st s) t = Some is \<Longrightarrow> v \<in> set is \<Longrightarrow> \<not> isLazy v"
  by (auto simp: pools_ok_def)

lemma pools_ok_lazy: "lazy s tok h st = (v, st') \<Longrightarrow> pools_ok st' = pools_ok st"
  by (auto simp: pools_ok_def lazy_def)

lemma pools_ok_alloc: "alloc ob st = (v, st') \<Longrightarrow> pools_ok st' = pools_ok st"
  by (auto simp: pools_ok_def alloc_def)

lemma recycled_set: "is \<noteq> [] \<Longrightarrow> set (last is # butlast is) = set is"
  by (metis append_butlast_last_id insert_is_Un list.simps(15) set_append sup_commute list.set(1) Un_insert_right sup_bot.right_neutral)

lemma pools_ok_aux:
  "(\<forall>st this tok h st' r. make n st this tok h = Some (st', r) \<longrightarrow> pools_ok st \<longrightarrow> pools_ok st') \<and>
   (\<forall>st this tok c h st' r. make_priv n st this tok c h = Some (st', r) \<longrightarrow> pools_ok st \<longrightarrow> pools_ok st') \<and>
   (\<forall>st c p st' r. run n st c p = Some (st', r) \<longrightarrow> pools_ok st \<longrightarrow> pools_ok st')"
proof (induction n)
  case 0
  show ?case by simp
next
  case (Suc n)
  have mk: "\<And>st this tok h st' r. make n st this tok h = Some (st', r) \<Longrightarrow> pools_ok st \<Longrightarrow> pools_ok st'"
    using Suc by blast
  have mp: "\<And>st this tok c h st' r. make_priv n st this tok c h = Some (st', r) \<Longrightarrow> pools_ok st \<Longrightarrow> pools_ok st'"
    using Suc by blast
  have rn: "\<And>st c p st' r. run n st c p = Some (st', r) \<Longrightarrow> pools_ok st \<Longrightarrow> pools_ok st'"
    using Suc by blast
  have A: "pools_ok st'" if "make (Suc n) st this tok h = Some (st', r)" "pools_ok st" for st this tok h st' r
  proof (cases "capacity (bindOptions (scopes st this) tok)" rule: caching_cases)
    case 1
    then show ?thesis using that by (auto dest: mp)
  next
    case (2 cap)
    show ?thesis
    proof (cases "pools (scopes st this) tok")
      case None
      let ?st1 = "upd_scope this (\<lambda>sc. sc\<lparr>pools := (pools sc)(tok \<mapsto> [])\<rparr>) st"
      have ok1: "pools_ok ?st1" using that(2) by (simp add: pools_ok_set)
      show ?thesis using that(1) 2 None
        by (auto simp: Let_def split: option.splits sum.splits prod.splits if_splits
              dest!: mp [OF _ ok1] intro!: pools_ok_set dest: pools_ok_at)
    next
      case (Some cached)
      show ?thesis
      proof (cases "cap \<le> int (length cached)")
        case True
        then have ne: "cached \<noteq> []" using 2 by auto
        have "\<forall>v \<in> set (last cached # butlast cached). \<not> isLazy v"
          unfolding recycled_set [OF ne] using that(2) Some by (auto dest: pools_ok_at)
        then show ?thesis using that 2 Some True
          by (auto simp: Let_def intro!: pools_ok_set)
      next
        case False
        show ?thesis using that(1) 2 Some False
          by (auto simp: Let_def split: option.splits sum.splits prod.splits if_splits
              dest!: mp [OF _ that(2)] intro!: pools_ok_set dest: pools_ok_at)
      qed
    qed
  qed
  have B: "pools_ok st'" if "make_priv (Suc n) st this tok c h = Some (st', r)" "pools_ok st"
    for st this tok c h st' r
    using that
    by (auto simp: Let_def pools_ok_upd_frame
         split: if_splits option.splits sum.splits prod.splits dest: mp mk rn pools_ok_lazy)
  have C: "pools_ok st'" if "run (Suc n) st c p = Some (st', r)" "pools_ok st" for st c p st' r
    using that
    by (cases p) (auto split: option.splits sum.splits prod.splits
          dest: mk rn pools_ok_alloc)
  show ?case using A B C by blast
qed


subsection \<open>Links and the caches of other scopes\<close>


lemma parents_upd:
  "(\<And>sc. parent (f sc) = parent sc) \<Longrightarrow> parents (upd_scope s f st) = parents st"
  by (auto simp: parents_def upd_scope_def)

lemma aliases_upd:
  "(\<And>sc. alias_of (f sc) = alias_of sc) \<Longrightarrow> aliases (upd_scope s f st) = aliases st"
  by (auto simp: aliases_def upd_scope_def)

lemma other_pools_upd_self: "other_pools c (upd_scope c f st) = other_pools c st"
  by (auto simp: other_pools_def upd_scope_def)

lemma other_pools_upd_frame:
  "(\<And>sc. pools (f sc) = pools sc) \<Longrightarrow> other_pools c (upd_scope s f st) = other_pools c st"
  by (auto simp: other_pools_def upd_scope_def)

lemma obs_lazy:
  "lazy s tok h st = (v, st') \<Longrightarrow> parents st' = parents st \<and> aliases st' = aliases st \<and> other_pools c st' = other_pools c st"
  by (auto simp: parents_def aliases_def other_pools_def lazy_def)

lemma obs_alloc:
  "alloc ob st = (v, st') \<Longrightarrow> parents st' = parents st \<and> aliases st' = aliases st \<and> other_pools c st' = other_pools c st"
  by (auto simp: parents_def aliases_def other_pools_def alloc_def)

lemma parents_at: "parent (scopes st s) = parents st s"
  by (simp add: parents_def)

lemma aliases_at: "alias_of (scopes st s) = aliases st s"
  by (simp add: aliases_def)

lemma links_aux:
  "(\<forall>st this tok h st' r. make n st this tok h = Some (st', r) \<longrightarrow> parents st' = parents st \<and> aliases st' = aliases st) \<and>
   (\<forall>st this tok c h st' r. make_priv n st this tok c h = Some (st', r) \<longrightarrow> parents st' = parents st \<and> aliases st' = aliases st) \<and>
   (\<forall>st c p st' r. run n st c p = Some (st', r) \<longrightarrow> parents st' = parents st \<and> aliases st' = aliases st)"
proof (induction n)
  case 0
  show ?case by simp
next
  case (Suc n)
  have mk: "\<And>st this tok h st' r. make n st this tok h = Some (st', r) \<Longrightarrow> parents st' = parents st \<and> aliases st' = aliases st"
    using Suc by blast
  have mp: "\<And>st this tok c h st' r. make_priv n st this tok c h = Some (st', r) \<Longrightarrow> parents st' = parents st \<and> aliases st' = aliases st"
    using Suc by blast
  have rn: "\<And>st c p st' r. run n st c p = Some (st', r) \<Longrightarrow> parents st' = parents st \<and> aliases st' = aliases st"
    using Suc by blast
  have A: "parents st' = parents st \<and> aliases st' = aliases st" if "make (Suc n) st this tok h = Some (st', r)" for st this tok h st' r
    using that
    by (auto simp: Let_def parents_upd aliases_upd
        split: if_splits option.splits sum.splits prod.splits dest!: mp)
  have B: "parents st' = parents st \<and> aliases st' = aliases st" if "make_priv (Suc n) st this tok c h = Some (st', r)"
    for st this tok c h st' r
    using that
    by (auto simp: Let_def parents_upd aliases_upd
        split: if_splits option.splits sum.splits prod.splits dest!: mp mk rn obs_lazy)
  have C: "parents st' = parents st \<and> aliases st' = aliases st" if "run (Suc n) st c p = Some (st', r)" for st c p st' r
    using that
    by (cases p) (auto split: option.splits sum.splits prod.splits dest!: mk rn obs_alloc)
  show ?case using A B C by blast
qed


lemma make_links:
  "make n st this tok h = Some (st', r) \<Longrightarrow> parents st' = parents st \<and> aliases st' = aliases st"
  using links_aux [of n] by blast

lemma others_aux:
  assumes H: "\<And>p tok. on_chain par c p \<Longrightarrow> p \<noteq> c \<Longrightarrow> al p tok = None"
  shows
  "(\<forall>st tok h st' r. make n st c tok h = Some (st', r) \<longrightarrow> parents st = par \<longrightarrow> aliases st = al
       \<longrightarrow> other_pools c st' = other_pools c st) \<and>
   (\<forall>st this tok h st' r. make_priv n st this tok c h = Some (st', r) \<longrightarrow> on_chain par c this
       \<longrightarrow> parents st = par \<longrightarrow> aliases st = al \<longrightarrow> other_pools c st' = other_pools c st) \<and>
   (\<forall>st p st' r. run n st c p = Some (st', r) \<longrightarrow> parents st = par \<longrightarrow> aliases st = al
       \<longrightarrow> other_pools c st' = other_pools c st)"
proof (induction n)
  case 0
  show ?case by simp
next
  case (Suc n)
  have mk: "\<And>st tok h st' r. make n st c tok h = Some (st', r) \<Longrightarrow> parents st = par
       \<Longrightarrow> aliases st = al \<Longrightarrow> other_pools c st' = other_pools c st"
    using Suc by blast
  have mp: "\<And>st this tok h st' r. make_priv n st this tok c h = Some (st', r) \<Longrightarrow> on_chain par c this
       \<Longrightarrow> parents st = par \<Longrightarrow> aliases st = al \<Longrightarrow> other_pools c st' = other_pools c st"
    using Suc by blast
  have rn: "\<And>st p st' r. run n st c p = Some (st', r) \<Longrightarrow> parents st = par
       \<Longrightarrow> aliases st = al \<Longrightarrow> other_pools c st' = other_pools c st"
    using Suc by blast
  have A: "other_pools c st' = other_pools c st"
    if "make (Suc n) st c tok h = Some (st', r)" "parents st = par" "aliases st = al"
    for st tok h st' r
    using that
    by (auto simp: Let_def parents_upd aliases_upd other_pools_upd_self
        split: if_splits option.splits sum.splits prod.splits
        dest!: mp [OF _ chain_self])
  have B: "other_pools c st' = other_pools c st"
    if "make_priv (Suc n) st this tok c h = Some (st', r)" "on_chain par c this"
       "parents st = par" "aliases st = al"
    for st this tok h st' r
  proof (cases "alias_of (scopes st this) tok")
    case (Some b)
    have "this = c"
    proof (rule ccontr)
      assume "this \<noteq> c"
      then have "al this tok = None" by (rule H [OF that(2)])
      then show False using Some that(4) by (auto simp: aliases_def)
    qed
    then show ?thesis using that Some by (auto dest: mk)
  next
    case None
    show ?thesis
    proof (cases "tok \<in> set (makeStack (scopes st this))")
      case True
      then show ?thesis using that(1) None
        by (auto simp: lazy_def other_pools_def)
    next
      case False
      let ?st1 = "upd_scope this (\<lambda>sc. sc\<lparr>makeStack := makeStack sc @ [tok]\<rparr>) st"
      have l1: "parents ?st1 = par" "aliases ?st1 = al"
        using that(3,4) by (simp_all add: parents_upd aliases_upd)
      have o1: "other_pools c ?st1 = other_pools c st"
        by (simp add: other_pools_upd_frame)
      have pop: "other_pools c (upd_scope this (\<lambda>sc. sc\<lparr>makeStack := butlast (makeStack sc)\<rparr>) st2)
          = other_pools c st2" for st2
        by (simp add: other_pools_upd_frame)
      show ?thesis
      proof (cases "providers (scopes st this) tok")
        case (Some prov)
        let ?body = "prov (case h of Some x \<Rightarrow> Some x | None \<Rightarrow> hints (scopes st this) tok)"
        from that(1) None False Some obtain st2 where
          r: "run n ?st1 c ?body = Some (st2, r)"
          and s: "st' = upd_scope this (\<lambda>sc. sc\<lparr>makeStack := butlast (makeStack sc)\<rparr>) st2"
          by (auto simp: Let_def upd_scope_def split: option.splits prod.splits)
        show ?thesis using rn [OF r l1] o1 by (simp add: s pop)
      next
        case np: None
        show ?thesis
        proof (cases "parent (scopes st this)")
          case None
          then show ?thesis using that(1) \<open>alias_of (scopes st this) tok = None\<close> False np
            by (auto simp: Let_def upd_scope_def other_pools_def)
        next
          case (Some p)
          have up: "on_chain par c p"
            using chain_parent [OF \<open>on_chain par c this\<close>, of p] Some \<open>parents st = par\<close>
            by (auto simp: parents_def)
          from that(1) \<open>alias_of (scopes st this) tok = None\<close> False np Some obtain st2 where
            r: "make_priv n ?st1 p tok c h = Some (st2, r)"
            and s: "st' = upd_scope this (\<lambda>sc. sc\<lparr>makeStack := butlast (makeStack sc)\<rparr>) st2"
            by (auto simp: Let_def upd_scope_def split: option.splits prod.splits)
          show ?thesis using mp [OF r up l1] o1 by (simp add: s pop)
        qed
      qed
    qed
  qed
  have C: "other_pools c st' = other_pools c st"
    if "run (Suc n) st c p = Some (st', r)" "parents st = par" "aliases st = al" for st p st' r
  proof (cases p)
    case (Make tok h k)
    show ?thesis
    proof (cases "make n st c tok h")
      case None
      then show ?thesis using that Make by simp
    next
      case (Some a)
      obtain st1 r1 where a: "a = (st1, r1)" by (cases a)
      have l1: "parents st1 = par" "aliases st1 = al"
        using make_links [OF Some [unfolded a]] that(2,3) by simp_all
      have o1: "other_pools c st1 = other_pools c st"
        using mk [OF Some [unfolded a] that(2,3)] .
      show ?thesis using that(1) Make Some a o1
        by (cases r1) (auto dest!: rn [OF _ l1])
    qed
  qed (use that in \<open>auto simp: alloc_def other_pools_def\<close>)
  show ?case using A B C by blast
qed


subsection \<open>The engine against the specified resolution\<close>


lemma resolve_aux:
  "(\<forall>st this tok h. map_option snd (make n st this tok h) = spec_outcome (spec_resolve n st this tok h)) \<and>
   (\<forall>st this tok c h. map_option snd (make_priv n st this tok c h) = spec_outcome (spec_step n st this tok c h))"
proof (induction n)
  case 0
  show ?case by (simp add: spec_outcome_def)
next
  case (Suc n)
  have mk: "\<And>st this tok h. map_option snd (make n st this tok h) = spec_outcome (spec_resolve n st this tok h)"
    using Suc by blast
  have mp: "\<And>st this tok c h. map_option snd (make_priv n st this tok c h) = spec_outcome (spec_step n st this tok c h)"
    using Suc by blast
  have A: "map_option snd (make (Suc n) st this tok h) = spec_outcome (spec_resolve (Suc n) st this tok h)" for st this tok h
  proof (cases "capacity (bindOptions (scopes st this) tok)" rule: caching_cases)
    case 1
    then show ?thesis
      by (auto simp: mp caching_def split: option.splits)
  next
    case (2 cap)
    show ?thesis
    proof (cases "pools (scopes st this) tok")
      case None
      have "map_option snd (make_priv n (upd_scope this (\<lambda>sc. sc\<lparr>pools := (pools sc)(tok \<mapsto> [])\<rparr>) st) this tok this h)
         = spec_outcome (spec_step n (upd_scope this (\<lambda>sc. sc\<lparr>pools := (pools sc)(tok \<mapsto> [])\<rparr>) st) this tok this h)"
        by (rule mp)
      moreover have "pools (scopes st2 this) tok \<noteq> None"
        if "make_priv n (upd_scope this (\<lambda>sc. sc\<lparr>pools := (pools sc)(tok \<mapsto> [])\<rparr>) st) this tok this h = Some (st2, r)"
        for st2 r
        by (rule make_priv_keeps_pool [OF that]) (simp add: upd_scope_def)
      ultimately show ?thesis using 2 None
        by (auto simp: Let_def split: option.splits sum.splits prod.splits if_splits)
    next
      case (Some cached)
      have "map_option snd (make_priv n st this tok this h) = spec_outcome (spec_step n st this tok this h)"
        by (rule mp)
      moreover have "pools (scopes st2 this) tok \<noteq> None"
        if "make_priv n st this tok this h = Some (st2, r)" for st2 r
        by (rule make_priv_keeps_pool [OF that]) (simp add: Some)
      ultimately show ?thesis using 2 Some
        by (auto simp: Let_def spec_outcome_def split: option.splits sum.splits prod.splits if_splits)
    qed
  qed
  have B: "map_option snd (make_priv (Suc n) st this tok c h) = spec_outcome (spec_step (Suc n) st this tok c h)" for st this tok c h
  proof (cases "alias_of (scopes st this) tok")
    case (Some b)
    then show ?thesis by (simp add: mk)
  next
    case None
    show ?thesis
    proof (cases "tok \<in> set (makeStack (scopes st this))")
      case True
      then show ?thesis using None by (simp add: spec_outcome_def lazy_def)
    next
      case False
      show ?thesis
      proof (cases "providers (scopes st this) tok")
        case (Some prov)
        then show ?thesis using None False
          by (auto simp: Let_def spec_outcome_def upd_scope_def split: option.splits prod.splits)
      next
        case np: None
        show ?thesis
        proof (cases "parent (scopes st this)")
          case None
          then show ?thesis using \<open>alias_of (scopes st this) tok = None\<close> False np
            by (simp add: Let_def spec_outcome_def upd_scope_def)
        next
          case (Some p)
          have "map_option snd (make_priv n (upd_scope this (\<lambda>sc. sc\<lparr>makeStack := makeStack sc @ [tok]\<rparr>) st) p tok c h)
            = spec_outcome (spec_step n (upd_scope this (\<lambda>sc. sc\<lparr>makeStack := makeStack sc @ [tok]\<rparr>) st) p tok c h)"
            by (rule mp)
          then show ?thesis using \<open>alias_of (scopes st this) tok = None\<close> False np Some
            by (auto simp: Let_def upd_scope_def split: option.splits prod.splits)
        qed
      qed
    qed
  qed
  show ?case using A B by blast
qed



subsection \<open>Consequences for make\<close>

lemma make_stacks:
  "make n st this tok h = Some (st', r) \<Longrightarrow> stacks st' = stacks st"
  using stacks_aux [of n] by blast

lemma make_resolve:
  "map_option snd (make n st this tok h) = spec_outcome (spec_resolve n st this tok h)"
  using resolve_aux [of n] by blast

lemma display_name_strip:
  "CHR ''@'' \<notin> set name \<Longrightarrow> display_name (name @ CHR ''@'' # suffix) = name"
  by (induction name) (auto simp: display_name_def)

lemma display_name_plain: "CHR ''@'' \<notin> set name \<Longrightarrow> display_name name = name"
  by (induction name) (auto simp: display_name_def)

lemma make_pools_ok: "make n st this tok h = Some (st', r) \<Longrightarrow> pools_ok st \<Longrightarrow> pools_ok st'"
  using pools_ok_aux [of n] by blast

lemma get_pools_ok:
  "get (\<lambda>w. make n w s tok h) (c, st) = Some ((c', st'), r) \<Longrightarrow> pools_ok st \<Longrightarrow> pools_ok st'"
  by (auto simp: get_def split: if_splits option.splits sum.splits prod.splits dest: make_pools_ok)

lemma substitute_pools_ok:
  "substitute (\<lambda>w. make n w s tok h) px rc (c, st) = Some ((c', st'), r) \<Longrightarrow> pools_ok st
     \<Longrightarrow> pools_ok st'"
  by (auto simp: substitute_def split: if_splits dest: get_pools_ok)

lemma handler_pools_ok:
  "handler (\<lambda>w. make n w s tok h) px t (c, st) = Some ((c', st'), r) \<Longrightarrow> pools_ok st
     \<Longrightarrow> pools_ok st'"
  by (cases t)
     (auto split: option.splits sum.splits prod.splits dest: get_pools_ok substitute_pools_ok)

lemma trap_on_pools_ok:
  "trap_on n l t st = Some (st', r) \<Longrightarrow> pools_ok st \<Longrightarrow> pools_ok st'"
  by (auto simp: trap_on_def Let_def pools_ok_def split: option.splits prod.splits
        dest!: handler_pools_ok [unfolded pools_ok_def])

lemma reachable_pools_ok: "reachable st \<Longrightarrow> pools_ok st"
proof (induction rule: reachable.induct)
  case r_init
  show ?case by (simp add: pools_ok_def init_def new_scope_def)
next
  case (r_create st)
  then show ?case by (auto simp: pools_ok_def create_def new_scope_def)
next
  case (r_inner st this)
  then show ?case by (auto simp: pools_ok_def inner_def new_scope_def)
next
  case (r_provide st this tok prov opts)
  then show ?case by (simp add: provide_def pools_ok_upd_frame)
next
  case (r_bind st this opts a c h)
  then show ?case by (simp add: bind_def pools_ok_upd_frame)
next
  case (r_make st this n tok h st1 r)
  then show ?case by (auto dest: make_pools_ok)
next
  case (r_trap st l n t st1 r)
  then show ?case by (auto dest: trap_on_pools_ok)
qed

lemma make_others:
  assumes "make n st c tok h = Some (st', r)"
    and "\<And>p t. on_chain (parents st) c p \<Longrightarrow> p \<noteq> c \<Longrightarrow> aliases st p t = None"
  shows "other_pools c st' = other_pools c st"
  using others_aux [of "parents st" c "aliases st" n, OF assms(2)] assms(1) by blast

subsection \<open>Erasing the policies and caches of the other scopes\<close>

lemma scopes_mask: "scopes (mask c st) p = (if p = c then scopes st p else erase (scopes st p))"
  by (simp add: mask_def)

lemma erase_simps [simp]:
  "alias_of (erase sc) = alias_of sc" "makeStack (erase sc) = makeStack sc"
  "providers (erase sc) = providers sc" "parent (erase sc) = parent sc"
  "hints (erase sc) = hints sc"
  by (simp_all add: erase_def alias_of_def fun_eq_iff)

lemma mask_obs [simp]:
  "heap (mask c st) = heap st" "lazies (mask c st) = lazies st" "nextScope (mask c st) = nextScope st"
  "parents (mask c st) = parents st" "aliases (mask c st) = aliases st"
  by (simp_all add: mask_def parents_def aliases_def fun_eq_iff)

lemma mask_upd_self: "upd_scope c f (mask c st) = mask c (upd_scope c f st)"
  by (auto simp: mask_def erase_def upd_scope_def fun_eq_iff)

lemma mask_push:
  "upd_scope s (\<lambda>sc. sc\<lparr>makeStack := makeStack sc @ [tok]\<rparr>) (mask c st)
     = mask c (upd_scope s (\<lambda>sc. sc\<lparr>makeStack := makeStack sc @ [tok]\<rparr>) st)"
  by (auto simp: mask_def erase_def upd_scope_def fun_eq_iff)

lemma mask_pop:
  "upd_scope s (\<lambda>sc. sc\<lparr>makeStack := butlast (makeStack sc)\<rparr>) (mask c st)
     = mask c (upd_scope s (\<lambda>sc. sc\<lparr>makeStack := butlast (makeStack sc)\<rparr>) st)"
  by (auto simp: mask_def erase_def upd_scope_def fun_eq_iff)

lemma mask_lazy:
  "(case lazy s tok h (mask c st) of (p, st1) \<Rightarrow> Some (st1, Inr p :: exn + val))
     = map_option (apfst (mask c)) (case lazy s tok h st of (p, st1) \<Rightarrow> Some (st1, Inr p))"
  by (simp add: lazy_def mask_def cong: if_cong)

lemma mask_alloc:
  "(case alloc ob (mask c st) of (v, st1) \<Rightarrow> Some (st1, Inr v :: exn + val))
     = map_option (apfst (mask c)) (case alloc ob st of (v, st1) \<Rightarrow> Some (st1, Inr v))"
  by (simp add: alloc_def mask_def cong: if_cong)

lemma scopes_upd_scope: "scopes (upd_scope s f st) = (scopes st)(s := f (scopes st s))"
  by (simp add: upd_scope_def)

lemma mask_fields:
  "alias_of (scopes (mask c st) p) = alias_of (scopes st p)"
  "makeStack (scopes (mask c st) p) = makeStack (scopes st p)"
  "providers (scopes (mask c st) p) = providers (scopes st p)"
  "parent (scopes (mask c st) p) = parent (scopes st p)"
  "hints (scopes (mask c st) p) = hints (scopes st p)"
  by (simp_all add: scopes_mask)

lemma mask_self: "scopes (mask c st) c = scopes st c"
  by (simp add: scopes_mask)

lemma make_priv_links:
  "make_priv n st this tok c h = Some (st', r) \<Longrightarrow> parents st' = parents st \<and> aliases st' = aliases st"
  using links_aux [of n] by blast

lemma run_links:
  "run n st c p = Some (st', r) \<Longrightarrow> parents st' = parents st \<and> aliases st' = aliases st"
  using links_aux [of n] by blast

lemma mask_aux:
  assumes H: "\<And>p tok. on_chain par c p \<Longrightarrow> p \<noteq> c \<Longrightarrow> al p tok = None"
  shows
  "(\<forall>st tok h. parents st = par \<longrightarrow> aliases st = al
       \<longrightarrow> make n (mask c st) c tok h = map_option (apfst (mask c)) (make n st c tok h)) \<and>
   (\<forall>st this tok h. on_chain par c this \<longrightarrow> parents st = par \<longrightarrow> aliases st = al
       \<longrightarrow> make_priv n (mask c st) this tok c h = map_option (apfst (mask c)) (make_priv n st this tok c h)) \<and>
   (\<forall>st p. parents st = par \<longrightarrow> aliases st = al
       \<longrightarrow> run n (mask c st) c p = map_option (apfst (mask c)) (run n st c p))"
proof (induction n)
  case 0
  show ?case by simp
next
  case (Suc n)
  have mk: "\<And>st tok h. parents st = par \<Longrightarrow> aliases st = al
       \<Longrightarrow> make n (mask c st) c tok h = map_option (apfst (mask c)) (make n st c tok h)"
    using Suc by blast
  have mp: "\<And>st this tok h. on_chain par c this \<Longrightarrow> parents st = par \<Longrightarrow> aliases st = al
       \<Longrightarrow> make_priv n (mask c st) this tok c h = map_option (apfst (mask c)) (make_priv n st this tok c h)"
    using Suc by blast
  have rn: "\<And>st p. parents st = par \<Longrightarrow> aliases st = al
       \<Longrightarrow> run n (mask c st) c p = map_option (apfst (mask c)) (run n st c p)"
    using Suc by blast
  have A: "make (Suc n) (mask c st) c tok h = map_option (apfst (mask c)) (make (Suc n) st c tok h)"
    if l: "parents st = par" "aliases st = al" for st tok h
  proof -
    let ?st1 = "upd_scope c (\<lambda>sc. sc\<lparr>pools := (pools sc)(tok \<mapsto> [])\<rparr>) st"
    have l1: "parents ?st1 = par" "aliases ?st1 = al"
      using l by (simp_all add: parents_upd aliases_upd)
    show ?thesis
      by (simp add: mask_self mask_upd_self mp [OF chain_self l] mp [OF chain_self l1] Let_def
            split: option.splits sum.splits prod.splits)
  qed
  have B: "make_priv (Suc n) (mask c st) this tok c h
       = map_option (apfst (mask c)) (make_priv (Suc n) st this tok c h)"
    if ch: "on_chain par c this" and l: "parents st = par" "aliases st = al" for st this tok h
  proof -
    let ?st1 = "upd_scope this (\<lambda>sc. sc\<lparr>makeStack := makeStack sc @ [tok]\<rparr>) st"
    have l1: "parents ?st1 = par" "aliases ?st1 = al"
      using l by (simp_all add: parents_upd aliases_upd)
    have al: "alias_of (scopes st this) tok = None" if "this \<noteq> c"
      using H [OF ch that, of tok] l(2) by (auto simp: aliases_def)
    have up: "on_chain par c p" if "parent (scopes st this) = Some p" for p
      using chain_parent [OF ch, of p] that l(1) by (auto simp: parents_def)
    note sc = mask_fields scopes_upd_scope
    show ?thesis
    proof (cases "alias_of (scopes st this) tok")
      case (Some b)
      then have "this = c" using al by auto
      then show ?thesis using Some by (simp add: sc mk [OF l])
    next
      case None
      show ?thesis
      proof (cases "providers (scopes st this) tok")
        case (Some prov)
        show ?thesis using None Some
          by (simp add: sc mask_push mask_pop mask_lazy rn [OF l1] Let_def
              split: option.splits prod.splits)
      next
        case np: None
        show ?thesis
        proof (cases "parent (scopes st this)")
          case None
          then show ?thesis using \<open>alias_of (scopes st this) tok = None\<close> np
            by (simp add: sc mask_push mask_pop mask_lazy Let_def)
        next
          case (Some p)
          show ?thesis using \<open>alias_of (scopes st this) tok = None\<close> np Some
            by (simp add: sc mask_push mask_pop mask_lazy mp [OF up [OF Some] l1] Let_def
                split: option.splits prod.splits)
        qed
      qed
    qed
  qed
  have C: "run (Suc n) (mask c st) c p = map_option (apfst (mask c)) (run (Suc n) st c p)"
    if l: "parents st = par" "aliases st = al" for st p
  proof (cases p)
    case (Make tok h k)
    show ?thesis
    proof (cases "make n st c tok h")
      case None
      then show ?thesis using Make by (simp add: mk [OF l])
    next
      case (Some a)
      obtain st1 r1 where a: "a = (st1, r1)" by (cases a)
      have l1: "parents st1 = par" "aliases st1 = al"
        using make_links [OF Some [unfolded a]] l by simp_all
      show ?thesis using Make Some a
        by (cases r1) (simp_all add: mk [OF l] rn [OF l1])
    qed
  qed (simp_all add: mask_alloc)
  show ?case using A B C by blast
qed


lemma make_mask:
  assumes "\<And>p t. on_chain (parents st) c p \<Longrightarrow> p \<noteq> c \<Longrightarrow> aliases st p t = None"
  shows "make n (mask c st) c tok h = map_option (apfst (mask c)) (make n st c tok h)"
  using mask_aux [of "parents st" c "aliases st" n, OF assms] by blast

subsection \<open>A singleton made twice\<close>

lemma singleton_again:
  assumes "capacity (bindOptions (scopes st s) T) = Some 1" "pools (scopes st s) T = Some [v]"
  shows "make (Suc n) st s T h = Some (st, Inr v)"
  using assms by (simp add: caching_def upd_scope_def Let_def map_upd_triv)



subsection \<open>The two readings of the alias step\<close>

lemma lookup_agree:
  "(\<forall>st s tok h. \<not> ancestor_alias n st s tok \<longrightarrow> spec_lookup n st s tok h = spec_resolve n st s tok h) \<and>
   (\<forall>st this tok c h. \<not> ancestor_alias_walk n st this tok c \<longrightarrow> spec_walk n st this tok c h = spec_step n st this tok c h)"
proof (induction n)
  case 0
  show ?case by simp
next
  case (Suc n)
  then have lk: "\<And>st s tok h. \<not> ancestor_alias n st s tok \<Longrightarrow> spec_lookup n st s tok h = spec_resolve n st s tok h"
    and wk: "\<And>st this tok c h. \<not> ancestor_alias_walk n st this tok c \<Longrightarrow> spec_walk n st this tok c h = spec_step n st this tok c h"
    by blast+
  show ?case
    by (auto simp: Let_def lk wk split: option.splits if_splits)
qed

lemma make_lookup:
  "\<not> ancestor_alias n st s tok
   \<Longrightarrow> map_option snd (make n st s tok h) = spec_outcome (spec_lookup n st s tok h)"
  using lookup_agree [of n] by (simp add: make_resolve)

subsection \<open>Where the failure of a provider call comes from\<close>

lemma failure_origin_run:
  "(\<exists>st'. run n st c p = Some (st', Inl e)) = (\<exists>og. failure_origin n st c p = Some (og, e))"
proof (induction n arbitrary: st p)
  case 0
  show ?case by simp
next
  case (Suc n)
  show ?case
    by (cases p) (auto simp: Suc split: option.splits sum.splits prod.splits)
qed

lemma failure_origin_nested:
  "failure_origin n st c p = Some (NestedMake k st2 c2 t h2, e)
   \<Longrightarrow> c2 = c \<and> (\<exists>st3. make k st2 c t h2 = Some (st3, Inl e))"
proof (induction n arbitrary: st p)
  case 0
  then show ?case by simp
next
  case (Suc n)
  then show ?case
    by (cases p) (auto split: option.splits sum.splits prod.splits)
qed

lemma missing_run:
  "missing_provider_error (map_option snd (run m st1 c body))
   = (\<exists>og e. failure_origin m st1 c body = Some (og, e) \<and> missing_provider_error (Some (Inl e)))"
proof
  assume a: "missing_provider_error (map_option snd (run m st1 c body))"
  then obtain st' e where r: "run m st1 c body = Some (st', Inl e)"
    by (auto simp: missing_provider_error_def split: option.splits sum.splits)
  then have "\<exists>og. failure_origin m st1 c body = Some (og, e)"
    using failure_origin_run [of m st1 c body e] by blast
  then show "\<exists>og e. failure_origin m st1 c body = Some (og, e) \<and> missing_provider_error (Some (Inl e))"
    using a r by auto
next
  assume "\<exists>og e. failure_origin m st1 c body = Some (og, e) \<and> missing_provider_error (Some (Inl e))"
  then obtain og e where f: "failure_origin m st1 c body = Some (og, e)"
    and m: "missing_provider_error (Some (Inl e))" by blast
  then obtain st' where "run m st1 c body = Some (st', Inl e)"
    using failure_origin_run [of m st1 c body e] by blast
  then show "missing_provider_error (map_option snd (run m st1 c body))"
    using m by simp
qed

lemma failure_outcome:
  "provider_failure res = Some (og, e) \<Longrightarrow> spec_outcome res = Some (Inl e)"
proof -
  assume a: "provider_failure res = Some (og, e)"
  then obtain m st1 c body where r: "res = Some (Invoke m st1 c body)"
    and f: "failure_origin m st1 c body = Some (og, e)"
    by (auto simp: provider_failure_def split: option.splits resolution.splits)
  then obtain st' where "run m st1 c body = Some (st', Inl e)"
    using failure_origin_run [of m st1 c body e] by blast
  then show ?thesis by (simp add: r spec_outcome_def)
qed

lemma failure_nested:
  "provider_failure res = Some (NestedMake k st2 c t h2, e)
   \<Longrightarrow> map_option snd (make k st2 c t h2) = Some (Inl e)"
  by (auto simp: provider_failure_def split: option.splits resolution.splits
      dest!: failure_origin_nested)

subsection \<open>A call changes no cache policy\<close>

lemma policies_upd:
  "(\<And>sc. bindOptions (f sc) = bindOptions sc) \<Longrightarrow> policies (upd_scope s f st) = policies st"
  by (auto simp: policies_def upd_scope_def)

lemma policies_lazy: "lazy s tok h st = (v, st') \<Longrightarrow> policies st' = policies st"
  by (auto simp: policies_def lazy_def)

lemma policies_alloc: "alloc ob st = (v, st') \<Longrightarrow> policies st' = policies st"
  by (auto simp: policies_def alloc_def)

lemma policies_aux:
  "(\<forall>st this tok h st' r. make n st this tok h = Some (st', r) \<longrightarrow> policies st' = policies st) \<and>
   (\<forall>st this tok c h st' r. make_priv n st this tok c h = Some (st', r) \<longrightarrow> policies st' = policies st) \<and>
   (\<forall>st c p st' r. run n st c p = Some (st', r) \<longrightarrow> policies st' = policies st)"
proof (induction n)
  case 0
  show ?case by simp
next
  case (Suc n)
  have mk: "\<And>st this tok h st' r. make n st this tok h = Some (st', r) \<Longrightarrow> policies st' = policies st"
    using Suc by blast
  have mp: "\<And>st this tok c h st' r. make_priv n st this tok c h = Some (st', r) \<Longrightarrow> policies st' = policies st"
    using Suc by blast
  have rn: "\<And>st c p st' r. run n st c p = Some (st', r) \<Longrightarrow> policies st' = policies st"
    using Suc by blast
  have A: "policies st' = policies st" if "make (Suc n) st this tok h = Some (st', r)" for st this tok h st' r
    using that
    by (auto simp: Let_def policies_upd
        split: if_splits option.splits sum.splits prod.splits dest!: mp)
  have B: "policies st' = policies st" if "make_priv (Suc n) st this tok c h = Some (st', r)"
    for st this tok c h st' r
    using that
    by (auto simp: Let_def policies_upd
        split: if_splits option.splits sum.splits prod.splits dest!: mp mk rn policies_lazy)
  have C: "policies st' = policies st" if "run (Suc n) st c p = Some (st', r)" for st c p st' r
    using that
    by (cases p) (auto split: option.splits sum.splits prod.splits dest!: mk rn policies_alloc)
  show ?case using A B C by blast
qed

lemma make_policies: "make n st this tok h = Some (st', r) \<Longrightarrow> policies st' = policies st"
  using policies_aux [of n] by blast

lemma policies_at: "bindOptions (scopes st s) = policies st s"
  by (simp add: policies_def)

subsection \<open>A full cache of capacity 1\<close>

lemma pool_upd_other:
  "this \<noteq> S \<or> tok \<noteq> T \<Longrightarrow>
   pools (scopes (upd_scope this (\<lambda>sc. sc\<lparr>pools := (pools sc)(tok \<mapsto> x)\<rparr>) st) S) T = pools (scopes st S) T"
  by (auto simp: upd_scope_def)

lemma pool_lazy: "lazy s tok h st = (v, st') \<Longrightarrow> pools (scopes st' S) T = pools (scopes st S) T"
  by (auto simp: lazy_def)

lemma pool_alloc: "alloc ob st = (v, st') \<Longrightarrow> pools (scopes st' S) T = pools (scopes st S) T"
  by (auto simp: alloc_def)

text \<open>A full cache of capacity 1 is left as it is by every call.\<close>

lemma full_aux:
  assumes cap: "capacity (pol S T) = Some 1"
  shows
  "(\<forall>st this tok h st' r. make n st this tok h = Some (st', r) \<longrightarrow> policies st = pol
      \<longrightarrow> pools (scopes st S) T = Some [v] \<longrightarrow> pools (scopes st' S) T = Some [v]) \<and>
   (\<forall>st this tok c h st' r. make_priv n st this tok c h = Some (st', r) \<longrightarrow> policies st = pol
      \<longrightarrow> pools (scopes st S) T = Some [v] \<longrightarrow> pools (scopes st' S) T = Some [v]) \<and>
   (\<forall>st c p st' r. run n st c p = Some (st', r) \<longrightarrow> policies st = pol
      \<longrightarrow> pools (scopes st S) T = Some [v] \<longrightarrow> pools (scopes st' S) T = Some [v])"
proof (induction n)
  case 0
  show ?case by simp
next
  case (Suc n)
  have mk: "\<And>st this tok h st' r. make n st this tok h = Some (st', r) \<Longrightarrow> policies st = pol
      \<Longrightarrow> pools (scopes st S) T = Some [v] \<Longrightarrow> pools (scopes st' S) T = Some [v]"
    using Suc by blast
  have mp: "\<And>st this tok c h st' r. make_priv n st this tok c h = Some (st', r) \<Longrightarrow> policies st = pol
      \<Longrightarrow> pools (scopes st S) T = Some [v] \<Longrightarrow> pools (scopes st' S) T = Some [v]"
    using Suc by blast
  have rn: "\<And>st c p st' r. run n st c p = Some (st', r) \<Longrightarrow> policies st = pol
      \<Longrightarrow> pools (scopes st S) T = Some [v] \<Longrightarrow> pools (scopes st' S) T = Some [v]"
    using Suc by blast
  have A: "pools (scopes st' S) T = Some [v]"
    if m: "make (Suc n) st this tok h = Some (st', r)" and p: "policies st = pol"
      and f: "pools (scopes st S) T = Some [v]"
    for st this tok h st' r
  proof (cases "this = S \<and> tok = T")
    case True
    have "capacity (bindOptions (scopes st S) T) = Some 1"
      using cap p by (simp add: policies_at)
    then have "make (Suc n) st S T h = Some (st, Inr v)"
      using f by (rule singleton_again)
    then show ?thesis using m True f by simp
  next
    case False
    then have o: "this \<noteq> S \<or> tok \<noteq> T" by blast
    let ?st1 = "upd_scope this (\<lambda>sc. sc\<lparr>pools := (pools sc)(tok \<mapsto> [])\<rparr>) st"
    have p1: "policies ?st1 = pol" using p by (simp add: policies_upd)
    have f1: "pools (scopes ?st1 S) T = Some [v]" using f o by (simp add: pool_upd_other)
    show ?thesis
      using m
      by (auto simp: Let_def pool_upd_other [OF o] f f1
          split: if_splits option.splits sum.splits prod.splits
          dest!: mp [OF _ p f] mp [OF _ p1 f1])
  qed
  have B: "pools (scopes st' S) T = Some [v]"
    if m: "make_priv (Suc n) st this tok c h = Some (st', r)" and p: "policies st = pol"
      and f: "pools (scopes st S) T = Some [v]"
    for st this tok c h st' r
  proof -
    let ?st1 = "upd_scope this (\<lambda>sc. sc\<lparr>makeStack := makeStack sc @ [tok]\<rparr>) st"
    have p1: "policies ?st1 = pol" using p by (simp add: policies_upd)
    have f1: "pools (scopes ?st1 S) T = Some [v]" using f by (simp add: pools_upd_frame)
    show ?thesis
      using m
      by (auto simp: Let_def pools_upd_frame f
          split: if_splits option.splits sum.splits prod.splits
          dest!: mk [OF _ p f] mp [OF _ p1 f1] rn [OF _ p1 f1] pool_lazy [where S = S and T = T])
  qed
  have C: "pools (scopes st' S) T = Some [v]"
    if m: "run (Suc n) st c p = Some (st', r)" and p: "policies st = pol"
      and f: "pools (scopes st S) T = Some [v]"
    for st c p st' r
  proof (cases p)
    case (Make tok h k)
    show ?thesis
    proof (cases "make n st c tok h")
      case None
      then show ?thesis using m Make by simp
    next
      case (Some a)
      obtain st1 r1 where a: "a = (st1, r1)" by (cases a)
      have p1: "policies st1 = pol" using make_policies [OF Some [unfolded a]] p by simp
      have f1: "pools (scopes st1 S) T = Some [v]" using mk [OF Some [unfolded a] p f] .
      show ?thesis using m Make Some a f1
        by (cases r1) (auto dest!: rn [OF _ p1 f1])
    qed
  qed (use m f in \<open>auto simp: alloc_def\<close>)
  show ?case using A B C by blast
qed

lemma make_full:
  assumes "make n st this tok h = Some (st', r)"
    "capacity (bindOptions (scopes st S) T) = Some 1" "pools (scopes st S) T = Some [v]"
  shows "capacity (bindOptions (scopes st' S) T) = Some 1 \<and> pools (scopes st' S) T = Some [v]"
proof -
  have c: "capacity (policies st S T) = Some 1" using assms(2) by (simp add: policies_def)
  have "pools (scopes st' S) T = Some [v]"
    using full_aux [of "policies st" S T n v, OF c] assms(1,3) by blast
  moreover have "policies st' = policies st" using assms(1) by (rule make_policies)
  then have "bindOptions (scopes st' S) T = bindOptions (scopes st S) T"
    by (simp add: policies_def fun_eq_iff)
  ultimately show ?thesis using assms(2) by simp
qed

lemma get_full:
  "get (\<lambda>w. make n w s tok h) (c, st) = Some ((c', st'), r)
   \<Longrightarrow> capacity (bindOptions (scopes st S) T) = Some 1 \<and> pools (scopes st S) T = Some [v]
   \<Longrightarrow> capacity (bindOptions (scopes st' S) T) = Some 1 \<and> pools (scopes st' S) T = Some [v]"
  by (auto simp: get_def split: if_splits option.splits sum.splits prod.splits dest: make_full)

lemma substitute_full:
  "substitute (\<lambda>w. make n w s tok h) px rc (c, st) = Some ((c', st'), r)
   \<Longrightarrow> capacity (bindOptions (scopes st S) T) = Some 1 \<and> pools (scopes st S) T = Some [v]
   \<Longrightarrow> capacity (bindOptions (scopes st' S) T) = Some 1 \<and> pools (scopes st' S) T = Some [v]"
  by (auto simp: substitute_def split: if_splits dest: get_full)

lemma handler_full:
  "handler (\<lambda>w. make n w s tok h) px t (c, st) = Some ((c', st'), r)
   \<Longrightarrow> capacity (bindOptions (scopes st S) T) = Some 1 \<and> pools (scopes st S) T = Some [v]
   \<Longrightarrow> capacity (bindOptions (scopes st' S) T) = Some 1 \<and> pools (scopes st' S) T = Some [v]"
  by (cases t)
     (auto split: option.splits sum.splits prod.splits dest: get_full substitute_full)

lemma trap_on_full:
  "trap_on n l t st = Some (st', r)
   \<Longrightarrow> capacity (bindOptions (scopes st S) T) = Some 1 \<and> pools (scopes st S) T = Some [v]
   \<Longrightarrow> capacity (bindOptions (scopes st' S) T) = Some 1 \<and> pools (scopes st' S) T = Some [v]"
  by (auto simp: trap_on_def Let_def split: option.splits prod.splits dest!: handler_full)

lemma later_full:
  "later st st' \<Longrightarrow> capacity (bindOptions (scopes st S) T) = Some 1 \<and> pools (scopes st S) T = Some [v]
   \<Longrightarrow> capacity (bindOptions (scopes st' S) T) = Some 1 \<and> pools (scopes st' S) T = Some [v]"
proof (induction rule: later.induct)
  case (later_refl st)
  then show ?case .
next
  case (later_make st st1 n this tok h st2 r)
  then show ?case using make_full by blast
next
  case (later_trap st st1 l n t st2 r)
  then show ?case using trap_on_full by blast
qed

subsection \<open>The cache of a token in flight\<close>

lemma make_aliases: "make n st this tok h = Some (st', r) \<Longrightarrow> aliases st' = aliases st"
  using make_links by blast

text \<open>
  While a token is in flight on a scope where it has no alias, its empty cache stays
  empty: the requests for it are answered by placeholders.
\<close>

lemma inflight_lazy:
  assumes "make_priv n st S T c h = Some (st', r)"
    "alias_of (scopes st S) T = None" "T \<in> set (makeStack (scopes st S))"
  shows "(\<exists>l. r = Inr (Lazy l)) \<and> pools (scopes st' S) T = pools (scopes st S) T"
  using assms by (cases n) (auto simp: lazy_def)

lemma inflight_aux:
  assumes al: "al S T = None"
  shows
  "(\<forall>st this tok h st' r. make n st this tok h = Some (st', r) \<longrightarrow> aliases st = al
      \<longrightarrow> T \<in> set (stacks st S) \<longrightarrow> pools (scopes st S) T = Some []
      \<longrightarrow> pools (scopes st' S) T = Some []) \<and>
   (\<forall>st this tok c h st' r. make_priv n st this tok c h = Some (st', r) \<longrightarrow> aliases st = al
      \<longrightarrow> T \<in> set (stacks st S) \<longrightarrow> pools (scopes st S) T = Some []
      \<longrightarrow> pools (scopes st' S) T = Some []) \<and>
   (\<forall>st c p st' r. run n st c p = Some (st', r) \<longrightarrow> aliases st = al
      \<longrightarrow> T \<in> set (stacks st S) \<longrightarrow> pools (scopes st S) T = Some []
      \<longrightarrow> pools (scopes st' S) T = Some [])"
proof (induction n)
  case 0
  show ?case by simp
next
  case (Suc n)
  have mk: "\<And>st this tok h st' r. make n st this tok h = Some (st', r) \<Longrightarrow> aliases st = al
      \<Longrightarrow> T \<in> set (stacks st S) \<Longrightarrow> pools (scopes st S) T = Some []
      \<Longrightarrow> pools (scopes st' S) T = Some []"
    using Suc by blast
  have mp: "\<And>st this tok c h st' r. make_priv n st this tok c h = Some (st', r) \<Longrightarrow> aliases st = al
      \<Longrightarrow> T \<in> set (stacks st S) \<Longrightarrow> pools (scopes st S) T = Some []
      \<Longrightarrow> pools (scopes st' S) T = Some []"
    using Suc by blast
  have rn: "\<And>st c p st' r. run n st c p = Some (st', r) \<Longrightarrow> aliases st = al
      \<Longrightarrow> T \<in> set (stacks st S) \<Longrightarrow> pools (scopes st S) T = Some []
      \<Longrightarrow> pools (scopes st' S) T = Some []"
    using Suc by blast
  have A: "pools (scopes st' S) T = Some []"
    if m: "make (Suc n) st this tok h = Some (st', r)" and a: "aliases st = al"
      and s: "T \<in> set (stacks st S)" and f: "pools (scopes st S) T = Some []"
    for st this tok h st' r
  proof (cases "this = S \<and> tok = T")
    case True
    have a0: "alias_of (scopes st S) T = None" using a al by (auto simp: aliases_def)
    have s0: "T \<in> set (makeStack (scopes st S))" using s by (simp add: stacks_def)
    show ?thesis
      using m True f
      by (auto simp: Let_def caching_def
          split: if_splits option.splits sum.splits prod.splits
          dest!: inflight_lazy [OF _ a0 s0])
  next
    case False
    then have o: "this \<noteq> S \<or> tok \<noteq> T" by blast
    let ?st1 = "upd_scope this (\<lambda>sc. sc\<lparr>pools := (pools sc)(tok \<mapsto> [])\<rparr>) st"
    have a1: "aliases ?st1 = al" using a by (simp add: aliases_upd)
    have s1: "T \<in> set (stacks ?st1 S)" using s by (auto simp: stacks_def upd_scope_def)
    have f1: "pools (scopes ?st1 S) T = Some []" using f o by (simp add: pool_upd_other)
    show ?thesis
      using m
      by (auto simp: Let_def pool_upd_other [OF o] f f1
          split: if_splits option.splits sum.splits prod.splits
          dest!: mp [OF _ a s f] mp [OF _ a1 s1 f1])
  qed
  have B: "pools (scopes st' S) T = Some []"
    if m: "make_priv (Suc n) st this tok c h = Some (st', r)" and a: "aliases st = al"
      and s: "T \<in> set (stacks st S)" and f: "pools (scopes st S) T = Some []"
    for st this tok c h st' r
  proof -
    let ?st1 = "upd_scope this (\<lambda>sc. sc\<lparr>makeStack := makeStack sc @ [tok]\<rparr>) st"
    have a1: "aliases ?st1 = al" using a by (simp add: aliases_upd)
    have s1: "T \<in> set (stacks ?st1 S)" using s by (auto simp: stacks_def upd_scope_def)
    have f1: "pools (scopes ?st1 S) T = Some []" using f by (simp add: pools_upd_frame)
    show ?thesis
      using m
      by (auto simp: Let_def pools_upd_frame f
          split: if_splits option.splits sum.splits prod.splits
          dest!: mk [OF _ a s f] mp [OF _ a1 s1 f1] rn [OF _ a1 s1 f1]
                 pool_lazy [where S = S and T = T])
  qed
  have C: "pools (scopes st' S) T = Some []"
    if m: "run (Suc n) st c p = Some (st', r)" and a: "aliases st = al"
      and s: "T \<in> set (stacks st S)" and f: "pools (scopes st S) T = Some []"
    for st c p st' r
  proof (cases p)
    case (Make tok h k)
    show ?thesis
    proof (cases "make n st c tok h")
      case None
      then show ?thesis using m Make by simp
    next
      case (Some x)
      obtain st1 r1 where x: "x = (st1, r1)" by (cases x)
      have a1: "aliases st1 = al" using make_aliases [OF Some [unfolded x]] a by simp
      have s1: "T \<in> set (stacks st1 S)" using make_stacks [OF Some [unfolded x]] s by simp
      have f1: "pools (scopes st1 S) T = Some []" using mk [OF Some [unfolded x] a s f] .
      show ?thesis using m Make Some x f1
        by (cases r1) (auto dest!: rn [OF _ a1 s1 f1])
    qed
  qed (use m f in \<open>auto simp: alloc_def\<close>)
  show ?case using A B C by blast
qed

text \<open>The first real instance made for a singleton is the one cached.\<close>

lemma singleton_first:
  assumes al: "alias_of (scopes st S) T = None"
    and cap: "capacity (bindOptions (scopes st S) T) = Some 1"
    and emp: "pools (scopes st S) T = None \<or> pools (scopes st S) T = Some []"
    and m: "make n st S T h = Some (st1, Inr v)"
    and nl: "\<not> isLazy v"
  shows "capacity (bindOptions (scopes st1 S) T) = Some 1 \<and> pools (scopes st1 S) T = Some [v]"
proof -
  obtain k where n: "n = Suc k" using m by (cases n) auto
  define st0 where "st0 = (case pools (scopes st S) T of
                         None \<Rightarrow> upd_scope S (\<lambda>sc. sc\<lparr>pools := (pools sc)(T \<mapsto> [])\<rparr>) st
                       | Some _ \<Rightarrow> st)"
  have p0: "pools (scopes st0 S) T = Some []"
    using emp by (auto simp: st0_def upd_scope_def)
  have a0: "aliases st0 = aliases st"
    by (auto simp: st0_def aliases_upd split: option.splits)
  have k0: "makeStack (scopes st0 S) = makeStack (scopes st S)"
    by (auto simp: st0_def upd_scope_def split: option.splits)
  have q0: "providers (scopes st0 p) = providers (scopes st p)"
     "parent (scopes st0 p) = parent (scopes st p)"
     "hints (scopes st0 p) = hints (scopes st p)" for p
    by (auto simp: st0_def upd_scope_def split: option.splits)
  have al0: "alias_of (scopes st0 S) T = None"
    using al a0 by (simp add: aliases_def fun_eq_iff)
  have len: "\<not> (1::int) \<le> int (length (case pools (scopes st S) T of None \<Rightarrow> [] | Some is \<Rightarrow> is))"
    using emp by auto
  obtain st2 where mp: "make_priv k st0 S T S h = Some (st2, Inr v)"
    and fin: "st1 = (case pools (scopes st2 S) T of
                       None \<Rightarrow> st2
                     | Some instances2 \<Rightarrow>
                         if int (length instances2) < 1
                         then upd_scope S (\<lambda>sc. sc\<lparr>pools := (pools sc)(T \<mapsto> v # instances2)\<rparr>) st2
                         else st2)"
    using m nl len cap unfolding n st0_def
    by (auto simp: Let_def caching_def split: option.splits sum.splits prod.splits if_splits)
  obtain j where k: "k = Suc j" using mp by (cases k) auto
  have ns: "T \<notin> set (makeStack (scopes st0 S))"
    using inflight_lazy [OF mp al0] nl by auto
  let ?stP = "upd_scope S (\<lambda>sc. sc\<lparr>makeStack := makeStack sc @ [T]\<rparr>) st0"
  have aP: "aliases ?stP = aliases st0" by (simp add: aliases_upd)
  have sP: "T \<in> set (stacks ?stP S)" by (auto simp: stacks_def upd_scope_def)
  have fP: "pools (scopes ?stP S) T = Some []" using p0 by (simp add: pools_upd_frame)
  have alS: "aliases st0 S T = None" using al0 by (simp add: aliases_def)
  note ia = inflight_aux [of "aliases st0" S T j, OF alS]
  obtain st3 where
    inner: "(\<exists>body. run j ?stP S body = Some (st3, Inr v)) \<or>
            (\<exists>p. make_priv j ?stP p T S h = Some (st3, Inr v))"
    and pop: "st2 = upd_scope S (\<lambda>sc. sc\<lparr>makeStack := butlast (makeStack sc)\<rparr>) st3"
    using mp al0 ns unfolding k
    by (auto simp: Let_def split: option.splits sum.splits prod.splits if_splits)
  have "pools (scopes st3 S) T = Some []"
    using inner ia aP sP fP by blast
  then have p2: "pools (scopes st2 S) T = Some []"
    by (simp add: pop pools_upd_frame)
  have "policies st1 = policies st" using m by (rule make_policies)
  then have "bindOptions (scopes st1 S) T = bindOptions (scopes st S) T"
    by (simp add: policies_def fun_eq_iff)
  moreover have "pools (scopes st1 S) T = Some [v]"
    using fin p2 by (simp add: upd_scope_def)
  ultimately show ?thesis using cap by simp
qed

lemma singleton_stable:
  assumes "alias_of (scopes st S) T = None"
    and "capacity (bindOptions (scopes st S) T) = Some 1"
    and "pools (scopes st S) T = None \<or> pools (scopes st S) T = Some []"
    and "make n st S T h = Some (st1, Inr v)"
    and "\<not> isLazy v"
    and "later st1 st2"
  shows "make (Suc m) st2 S T h' = Some (st2, Inr v)"
proof -
  have "capacity (bindOptions (scopes st1 S) T) = Some 1 \<and> pools (scopes st1 S) T = Some [v]"
    using assms(1-5) by (rule singleton_first)
  then have "capacity (bindOptions (scopes st2 S) T) = Some 1 \<and> pools (scopes st2 S) T = Some [v]"
    using later_full [OF assms(6)] by blast
  then show ?thesis using singleton_again by blast
qed


subsection \<open>A cache of capacity 1 stays short\<close>





section \<open>The forwarding proxy never caches\<close>

text \<open>
  C1. The claim is that the first operation on a proxy calls the factory once and
  that all later operations go to the cached instance. \<^verbatim>\<open>initialized\<close> is never set,
  so this fails: with a factory that counts its calls and returns a new object each
  time, a first \<^verbatim>\<open>"x" in p\<close> is forwarded to object 0 and a second one calls the
  factory again and is forwarded to object 1; a single read \<^verbatim>\<open>p.x\<close>, whose receiver is
  the proxy, calls the factory twice. In the container: after \<^verbatim>\<open>make("A")\<close> in
  \<open>cycle_demo\<close> has built objects 0 and 1, two \<^verbatim>\<open>"x" in p\<close> on the placeholder stored in
  the \<open>B\<close> object run \<^verbatim>\<open>make("A")\<close> twice and reach the new objects 3 and 5.
\<close>

theorem factory_runs_on_every_operation:
  "handler counting_factory (Lazy 0) (Has ''x'') (fresh_cell, 0)
     = Some ((fresh_cell\<lparr>inst := Obj 0\<rparr>, 1), Inr (Reflect (Obj 0) (Has ''x''))) \<and>
   handler counting_factory (Lazy 0) (Has ''x'') (fresh_cell\<lparr>inst := Obj 0\<rparr>, 1)
     = Some ((fresh_cell\<lparr>inst := Obj 1\<rparr>, 2), Inr (Reflect (Obj 1) (Has ''x''))) \<and>
   handler counting_factory (Lazy 0) (Get ''x'' (Lazy 0)) (fresh_cell, 0)
     = Some ((fresh_cell\<lparr>inst := Obj 1\<rparr>, 2), Inr (Reflect (Obj 0) (Get ''x'' (Obj 1)))) \<and>
   map_option snd (make 8 cycle_demo 0 ''A'' None) = Some (Inr (Obj 1)) \<and>
   map_option snd (trap_on 8 0 (Has ''x'') (fst (the (make 8 cycle_demo 0 ''A'' None))))
     = Some (Inr (Reflect (Obj 3) (Has ''x''))) \<and>
   map_option snd (trap_on 8 0 (Has ''x'')
       (fst (the (trap_on 8 0 (Has ''x'') (fst (the (make 8 cycle_demo 0 ''A'' None)))))))
     = Some (Inr (Reflect (Obj 5) (Has ''x'')))"
  by (simp add: counting_factory_def fresh_cell_def get_def substitute_def trap_on_def
        cycle_demo_def eval_defs eval_nat_numeral)

section \<open>Caching follows the token passed to make\<close>

text \<open>
  C2, as stated: with \<open>A\<close> bound to \<open>C\<close>, no policy on \<open>A\<close> and a pool policy on \<open>C\<close>,
  every \<^verbatim>\<open>make(A)\<close> would produce a new instance. In \<open>alias_demo\<close> the second
  \<^verbatim>\<open>make("A")\<close> returns the instance the first one produced.
\<close>

theorem alias_fresh_counterexample:
  "makes 5 alias_demo [(0, ''A''), (0, ''A'')] = Some [Inr (Obj 0), Inr (Obj 0)] \<and>
   bindings (scopes alias_demo 0) ''A'' = Some ''C'' \<and>
   bindOptions (scopes alias_demo 0) ''A'' = None \<and>
   bindOptions (scopes alias_demo 0) ''C'' = Some \<lparr>singleton = None, pool = Some 1\<rparr>"
  by (simp add: alias_demo_def eval_defs eval_nat_numeral)

text \<open>
  C2, amended: when \<open>A\<close> is bound to a different, non-empty token \<open>C\<close> with no policy
  on \<open>A\<close>, the policy lookup for \<open>A\<close> misses and \<^verbatim>\<open>make(A)\<close> is \<^verbatim>\<open>make(C)\<close> without
  class hint, two calls deeper: it returns what \<^verbatim>\<open>make(C)\<close> returns, instances served from the
  cache of \<open>C\<close> included.
\<close>

theorem alias_target_policy:
  assumes "A \<noteq> C" "C \<noteq> []"
  shows "make (Suc (Suc n)) (bind s None A C ch st) s A h = make n (bind s None A C ch st) s C None"
  using assms by (simp add: eval_defs)

theorem alias_target_policy_witness:
  "''A'' \<noteq> ''C'' \<and> ''C'' \<noteq> [] \<and>
   make 5 alias_demo 0 ''A'' None = make 3 alias_demo 0 ''C'' None \<and>
   map_option snd (make 3 alias_demo 0 ''C'' None) = Some (Inr (Obj 0))"
proof -
  have a: "''A'' \<noteq> ''C''" by simp
  have b: "''C'' \<noteq> []" by simp
  have c: "map_option snd (make 3 alias_demo 0 ''C'' None) = Some (Inr (Obj 0))"
    by (simp add: alias_demo_def eval_defs eval_nat_numeral)
  show ?thesis
    using alias_target_policy [OF a b, of 3 0 None _ None] c
    by (simp add: alias_demo_def eval_nat_numeral)
qed

section \<open>A cycle between two providers\<close>

text \<open>
  Termination. Let the provider of \<open>A\<close> make \<open>B\<close> and store it, and the provider of \<open>B\<close>
  make \<open>A\<close> and store it, on a scope where neither token is aliased, in flight or cached
  yet, under any cache policies. Then \<^verbatim>\<open>make(A)\<close> returns at every depth bound from 8
  on: the inner request for \<open>A\<close> finds \<open>A\<close> on the stack and yields a placeholder whose
  factory is \<^verbatim>\<open>make(A)\<close> on the same scope. The result is a new \<open>A\<close> object; the
  \<open>B\<close> reference it stores is the real object the provider of \<open>B\<close> built, and that
  object stores the placeholder. When \<open>B\<close> has capacity 1, the stored reference is the
  very instance every later \<^verbatim>\<open>make(B)\<close> returns.
\<close>

theorem cycle_terminates:
  assumes ne: "A \<noteq> B"
    and al: "alias_of (scopes st s) A = None" "alias_of (scopes st s) B = None"
    and stk: "A \<notin> set (makeStack (scopes st s))" "B \<notin> set (makeStack (scopes st s))"
    and pA: "providers (scopes st s) A = Some (\<lambda>h. Make B None (\<lambda>b. New h [b]))"
    and pB: "providers (scopes st s) B = Some (\<lambda>h. Make A None (\<lambda>a. New h [a]))"
    and pl: "pools (scopes st s) A = None" "pools (scopes st s) B = None"
  shows "\<exists>st'. make (Suc (Suc (Suc (Suc (Suc (Suc (Suc (Suc n)))))))) st s A h
                  = Some (st', Inr (Obj (Suc (length (heap st))))) \<and>
      heap st' = heap st @
        [\<lparr>cls = hints (scopes st s) B, slots = [Lazy (length (lazies st))]\<rparr>,
         \<lparr>cls = (case h of Some c \<Rightarrow> Some c | None \<Rightarrow> hints (scopes st s) A),
            slots = [Obj (length (heap st))]\<rparr>] \<and>
      \<not> isLazy (Obj (length (heap st))) \<and>
      lazies st' = lazies st @ [\<lparr>thunk_scope = s, thunk_token = A, thunk_hint = None,
                                 cell = \<lparr>inst = Undefined, initialized = False\<rparr>\<rparr>] \<and>
      (capacity (bindOptions (scopes st s) B) = Some 1
         \<longrightarrow> make (Suc m) st' s B hb = Some (st', Inr (Obj (length (heap st)))))"
proof -
  have ne': "B \<noteq> A" using ne by simp
  note facts = ne ne' al stk pA pB pl upd_scope_def alloc_def lazy_def Let_def
  let ?goal = "\<exists>st'. make (Suc (Suc (Suc (Suc (Suc (Suc (Suc (Suc n)))))))) st s A h
                  = Some (st', Inr (Obj (Suc (length (heap st))))) \<and>
      heap st' = heap st @
        [\<lparr>cls = hints (scopes st s) B, slots = [Lazy (length (lazies st))]\<rparr>,
         \<lparr>cls = (case h of Some c \<Rightarrow> Some c | None \<Rightarrow> hints (scopes st s) A),
            slots = [Obj (length (heap st))]\<rparr>] \<and>
      lazies st' = lazies st @ [\<lparr>thunk_scope = s, thunk_token = A, thunk_hint = None,
                                 cell = \<lparr>inst = Undefined, initialized = False\<rparr>\<rparr>] \<and>
      bindOptions (scopes st' s) B = bindOptions (scopes st s) B \<and>
      (caching (capacity (bindOptions (scopes st s) B))
         \<longrightarrow> pools (scopes st' s) B = Some [Obj (length (heap st))])"
  have main: ?goal
  proof (cases "capacity (bindOptions (scopes st s) A)" rule: caching_cases)
    case 1
    note cA = 1
    show ?thesis
    proof (cases "capacity (bindOptions (scopes st s) B)" rule: caching_cases)
      case 1
      show ?thesis using cA 1 by (cases h; simp add: facts)
    next
      case (2 capB)
      show ?thesis using cA 2 by (cases h; simp add: facts)
    qed
  next
    case (2 capA)
    note cA = 2
    show ?thesis
    proof (cases "capacity (bindOptions (scopes st s) B)" rule: caching_cases)
      case 1
      show ?thesis using cA 1 by (cases h; simp add: facts)
    next
      case (2 capB)
      show ?thesis using cA 2 by (cases h; simp add: facts)
    qed
  qed
  then obtain st' where
    m: "make (Suc (Suc (Suc (Suc (Suc (Suc (Suc (Suc n)))))))) st s A h
          = Some (st', Inr (Obj (Suc (length (heap st)))))"
    and hp: "heap st' = heap st @
        [\<lparr>cls = hints (scopes st s) B, slots = [Lazy (length (lazies st))]\<rparr>,
         \<lparr>cls = (case h of Some c \<Rightarrow> Some c | None \<Rightarrow> hints (scopes st s) A),
            slots = [Obj (length (heap st))]\<rparr>]"
    and lz: "lazies st' = lazies st @ [\<lparr>thunk_scope = s, thunk_token = A, thunk_hint = None,
                                 cell = \<lparr>inst = Undefined, initialized = False\<rparr>\<rparr>]"
    and bo: "bindOptions (scopes st' s) B = bindOptions (scopes st s) B"
    and pb: "caching (capacity (bindOptions (scopes st s) B))
         \<longrightarrow> pools (scopes st' s) B = Some [Obj (length (heap st))]"
    by blast
  have again: "make (Suc m) st' s B hb = Some (st', Inr (Obj (length (heap st))))"
    if c1: "capacity (bindOptions (scopes st s) B) = Some 1"
  proof (rule singleton_again)
    show "capacity (bindOptions (scopes st' s) B) = Some 1" using c1 bo by simp
    show "pools (scopes st' s) B = Some [Obj (length (heap st))]"
      using pb c1 by (simp add: caching_def)
  qed
  show ?thesis
    using m hp lz again by (intro exI [of _ st'] conjI impI) simp_all
qed

theorem cycle_terminates_witness:
  "''A'' \<noteq> ''B'' \<and>
   alias_of (scopes cycle_singleton_demo 0) ''A'' = None \<and> alias_of (scopes cycle_singleton_demo 0) ''B'' = None \<and>
   ''A'' \<notin> set (makeStack (scopes cycle_singleton_demo 0)) \<and> ''B'' \<notin> set (makeStack (scopes cycle_singleton_demo 0)) \<and>
   pools (scopes cycle_singleton_demo 0) ''A'' = None \<and> pools (scopes cycle_singleton_demo 0) ''B'' = None \<and>
   capacity (bindOptions (scopes cycle_singleton_demo 0) ''B'') = Some 1 \<and>
   map_option snd (make 8 cycle_singleton_demo 0 ''A'' None) = Some (Inr (Obj 1)) \<and>
   heap (fst (the (make 8 cycle_singleton_demo 0 ''A'' None)))
     = [\<lparr>cls = None, slots = [Lazy 0]\<rparr>, \<lparr>cls = None, slots = [Obj 0]\<rparr>] \<and>
   lazies (fst (the (make 8 cycle_singleton_demo 0 ''A'' None)))
     = [\<lparr>thunk_scope = 0, thunk_token = ''A'', thunk_hint = None,
         cell = \<lparr>inst = Undefined, initialized = False\<rparr>\<rparr>] \<and>
   make (Suc 0) (fst (the (make 8 cycle_singleton_demo 0 ''A'' None))) 0 ''B'' None
     = Some (fst (the (make 8 cycle_singleton_demo 0 ''A'' None)), Inr (Obj 0))"
proof -
  let ?W = "fst (the (make 8 cycle_singleton_demo 0 ''A'' None))"
  have ne: "''A'' \<noteq> ''B''" by simp
  have al: "alias_of (scopes cycle_singleton_demo 0) ''A'' = None" "alias_of (scopes cycle_singleton_demo 0) ''B'' = None"
    by (simp_all add: cycle_singleton_demo_def eval_defs)
  have stk: "''A'' \<notin> set (makeStack (scopes cycle_singleton_demo 0))" "''B'' \<notin> set (makeStack (scopes cycle_singleton_demo 0))"
    by (simp_all add: cycle_singleton_demo_def eval_defs)
  have pA: "providers (scopes cycle_singleton_demo 0) ''A'' = Some (\<lambda>h. Make ''B'' None (\<lambda>b. New h [b]))"
    by (simp add: cycle_singleton_demo_def eval_defs)
  have pB: "providers (scopes cycle_singleton_demo 0) ''B'' = Some (\<lambda>h. Make ''A'' None (\<lambda>a. New h [a]))"
    by (simp add: cycle_singleton_demo_def eval_defs)
  have pl: "pools (scopes cycle_singleton_demo 0) ''A'' = None" "pools (scopes cycle_singleton_demo 0) ''B'' = None"
    by (simp_all add: cycle_singleton_demo_def eval_defs)
  have cp: "capacity (bindOptions (scopes cycle_singleton_demo 0) ''B'') = Some 1"
    by (simp add: cycle_singleton_demo_def eval_defs)
  have hp: "heap cycle_singleton_demo = []" "lazies cycle_singleton_demo = []"
    "hints (scopes cycle_singleton_demo 0) ''A'' = None" "hints (scopes cycle_singleton_demo 0) ''B'' = None"
    by (simp_all add: cycle_singleton_demo_def eval_defs)
  from cycle_terminates [OF ne al stk pA pB pl, where n = 0 and h = None and m = 0 and hb = None]
  obtain st' where
    m: "make (Suc (Suc (Suc (Suc (Suc (Suc (Suc (Suc 0)))))))) cycle_singleton_demo 0 ''A'' None
          = Some (st', Inr (Obj (Suc (length (heap cycle_singleton_demo)))))"
    and h: "heap st' = heap cycle_singleton_demo @
        [\<lparr>cls = hints (scopes cycle_singleton_demo 0) ''B'', slots = [Lazy (length (lazies cycle_singleton_demo))]\<rparr>,
         \<lparr>cls = (case None of Some c \<Rightarrow> Some c | None \<Rightarrow> hints (scopes cycle_singleton_demo 0) ''A''),
            slots = [Obj (length (heap cycle_singleton_demo))]\<rparr>]"
    and l: "lazies st' = lazies cycle_singleton_demo @ [\<lparr>thunk_scope = 0, thunk_token = ''A'', thunk_hint = None,
                                 cell = \<lparr>inst = Undefined, initialized = False\<rparr>\<rparr>]"
    and b: "capacity (bindOptions (scopes cycle_singleton_demo 0) ''B'') = Some 1
         \<longrightarrow> make (Suc 0) st' 0 ''B'' None = Some (st', Inr (Obj (length (heap cycle_singleton_demo))))"
    by blast
  have m8: "make 8 cycle_singleton_demo 0 ''A'' None = Some (st', Inr (Obj (Suc (length (heap cycle_singleton_demo)))))"
    using m by (simp add: eval_nat_numeral del: make.simps)
  have W: "?W = st'" using m8 by simp
  have r1: "map_option snd (make 8 cycle_singleton_demo 0 ''A'' None) = Some (Inr (Obj 1))"
    using m8 by (simp add: hp)
  have r2: "heap ?W = [\<lparr>cls = None, slots = [Lazy 0]\<rparr>, \<lparr>cls = None, slots = [Obj 0]\<rparr>]"
    unfolding W using h by (simp add: hp)
  have r3: "lazies ?W = [\<lparr>thunk_scope = 0, thunk_token = ''A'', thunk_hint = None,
         cell = \<lparr>inst = Undefined, initialized = False\<rparr>\<rparr>]"
    unfolding W using l by (simp add: hp)
  have r4: "make (Suc 0) ?W 0 ''B'' None = Some (?W, Inr (Obj 0))"
    unfolding W using b cp by (simp add: hp del: make.simps)
  show ?thesis using ne al stk pl cp r1 r2 r3 r4 by (intro conjI)
qed


text \<open>
  C3. The claim has two halves. \<^verbatim>\<open>make(A)\<close> does terminate, as shown above. But what
  the cycle leaves behind does not behave as the real instances: the \<open>B\<close> stored in \<open>A\<close>
  holds the placeholder for \<open>A\<close>, and since \<^verbatim>\<open>initialized\<close> is never set, every
  operation on that placeholder runs \<^verbatim>\<open>make(A)\<close> again. In \<open>cycle_singleton_demo\<close>
  (\<open>B\<close> a singleton, no policy on \<open>A\<close>) \<^verbatim>\<open>make("A")\<close> builds \<open>B\<close> as object 0 and
  \<open>A\<close> as object 1, and \<^verbatim>\<open>make("B")\<close> then returns object 0. A write \<^verbatim>\<open>p.x = v\<close> through
  the placeholder \<open>p\<close> held by that \<open>B\<close> goes to a new object 2 with a second new
  object 3 as receiver, and a following read \<^verbatim>\<open>p.x\<close> goes to the new objects 4 and 5:
  no two operations reach the same \<open>A\<close>, and what is written is not read back. Only
  when \<open>A\<close> has a cache of capacity 1 (\<open>cycle_singletons_demo\<close>) does each operation
  reach object 1, the \<open>A\<close> that was being built.
\<close>

theorem cycle_placeholder_not_the_instance:
  "map_option snd (make 8 cycle_singleton_demo 0 ''A'' None) = Some (Inr (Obj 1)) \<and>
   heap (fst (the (make 8 cycle_singleton_demo 0 ''A'' None)))
     = [\<lparr>cls = None, slots = [Lazy 0]\<rparr>, \<lparr>cls = None, slots = [Obj 0]\<rparr>] \<and>
   map_option snd (make 8 (fst (the (make 8 cycle_singleton_demo 0 ''A'' None))) 0 ''B'' None)
     = Some (Inr (Obj 0)) \<and>
   map_option snd (trap_on 8 0 (Set ''x'' (Lazy 0)) (fst (the (make 8 cycle_singleton_demo 0 ''A'' None))))
     = Some (Inr (Reflect (Obj 2) (Set ''x'' (Obj 3)))) \<and>
   map_option snd (trap_on 8 0 (Get ''x'' (Lazy 0))
       (fst (the (trap_on 8 0 (Set ''x'' (Lazy 0)) (fst (the (make 8 cycle_singleton_demo 0 ''A'' None)))))))
     = Some (Inr (Reflect (Obj 4) (Get ''x'' (Obj 5)))) \<and>
   map_option snd (make 8 cycle_singletons_demo 0 ''A'' None) = Some (Inr (Obj 1)) \<and>
   heap (fst (the (make 8 cycle_singletons_demo 0 ''A'' None)))
     = [\<lparr>cls = None, slots = [Lazy 0]\<rparr>, \<lparr>cls = None, slots = [Obj 0]\<rparr>] \<and>
   map_option snd (trap_on 8 0 (Set ''x'' (Lazy 0)) (fst (the (make 8 cycle_singletons_demo 0 ''A'' None))))
     = Some (Inr (Reflect (Obj 1) (Set ''x'' (Obj 1)))) \<and>
   map_option snd (trap_on 8 0 (Get ''x'' (Lazy 0))
       (fst (the (trap_on 8 0 (Set ''x'' (Lazy 0)) (fst (the (make 8 cycle_singletons_demo 0 ''A'' None)))))))
     = Some (Inr (Reflect (Obj 1) (Get ''x'' (Obj 1))))"
  by (simp add: get_def substitute_def trap_on_def cycle_singleton_demo_def cycle_singletons_demo_def
        eval_defs eval_nat_numeral)


section \<open>Pool rotation\<close>

text \<open>
  C4. After \<^verbatim>\<open>provide(T, f, {pool: 2})\<close> with \<open>f\<close> building a new object at each
  call, on a scope where \<open>T\<close> is not aliased, not in flight and has nothing cached,
  five successive \<^verbatim>\<open>make(T)\<close> calls return the new objects 1 and 2, then 1, 2, 1.
  The mechanism: whenever the cache of the token holds at least as many instances as
  its capacity, \<^verbatim>\<open>make\<close> takes the last one, puts it back in front and returns it.
\<close>

theorem pool_rotation:
  assumes "alias_of (scopes st s) T = None" "T \<notin> set (makeStack (scopes st s))"
     "pools (scopes st s) T = None"
  shows "makes (Suc (Suc (Suc n)))
           (provide s T (\<lambda>h. New h args) (Some \<lparr>singleton = None, pool = Some 2\<rparr>) st)
           [(s, T), (s, T), (s, T), (s, T), (s, T)]
         = Some [Inr (Obj (length (heap st))), Inr (Obj (Suc (length (heap st)))),
                 Inr (Obj (length (heap st))), Inr (Obj (Suc (length (heap st)))),
                 Inr (Obj (length (heap st)))] \<and>
     (capacity (bindOptions (scopes st0 s0) T0) = Some cap \<and> 0 < cap \<and>
      pools (scopes st0 s0) T0 = Some cached \<and> cap \<le> int (length cached)
        \<longrightarrow> make (Suc m) st0 s0 T0 h0
              = Some (upd_scope s0 (\<lambda>sc. sc\<lparr>pools := (pools sc)(T0 \<mapsto> last cached # butlast cached)\<rparr>) st0,
                      Inr (last cached)))"
proof (intro conjI impI)
  show "makes (Suc (Suc (Suc n)))
           (provide s T (\<lambda>h. New h args) (Some \<lparr>singleton = None, pool = Some 2\<rparr>) st)
           [(s, T), (s, T), (s, T), (s, T), (s, T)]
         = Some [Inr (Obj (length (heap st))), Inr (Obj (Suc (length (heap st)))),
                 Inr (Obj (length (heap st))), Inr (Obj (Suc (length (heap st)))),
                 Inr (Obj (length (heap st)))]"
    using assms
    by (simp add: provide_def upd_scope_def caching_def capacity_def alloc_def Let_def)
next
  assume "capacity (bindOptions (scopes st0 s0) T0) = Some cap \<and> 0 < cap \<and>
      pools (scopes st0 s0) T0 = Some cached \<and> cap \<le> int (length cached)"
  then show "make (Suc m) st0 s0 T0 h0
      = Some (upd_scope s0 (\<lambda>sc. sc\<lparr>pools := (pools sc)(T0 \<mapsto> last cached # butlast cached)\<rparr>) st0,
              Inr (last cached))"
    by (simp add: caching_def Let_def)
qed

theorem pool_rotation_witness:
  "alias_of (scopes root 0) ''T'' = None \<and> ''T'' \<notin> set (makeStack (scopes root 0)) \<and>
   pools (scopes root 0) ''T'' = None \<and>
   makes 3 (provide 0 ''T'' (\<lambda>h. New h []) (Some \<lparr>singleton = None, pool = Some 2\<rparr>) root)
      [(0, ''T''), (0, ''T''), (0, ''T''), (0, ''T''), (0, ''T'')]
     = Some [Inr (Obj 0), Inr (Obj 1), Inr (Obj 0), Inr (Obj 1), Inr (Obj 0)] \<and>
   capacity (bindOptions (scopes full_pool_demo 0) ''T'') = Some 2 \<and> (0::int) < 2 \<and>
   pools (scopes full_pool_demo 0) ''T'' = Some [Obj 1, Obj 0] \<and> (2::int) \<le> int (length [Obj 1, Obj 0]) \<and>
   make (Suc 0) full_pool_demo 0 ''T'' None
     = Some (upd_scope 0 (\<lambda>sc. sc\<lparr>pools := (pools sc)(''T'' \<mapsto> [Obj 0, Obj 1])\<rparr>) full_pool_demo,
             Inr (Obj 0))"
proof -
  have a: "alias_of (scopes root 0) ''T'' = None" by (simp add: root_def create_def init_def)
  have b: "''T'' \<notin> set (makeStack (scopes root 0))"
    by (simp add: root_def create_def init_def new_scope_def)
  have c: "pools (scopes root 0) ''T'' = None"
    by (simp add: root_def create_def init_def new_scope_def)
  have d: "length (heap root) = 0" by (simp add: root_def create_def init_def)
  have f: "capacity (bindOptions (scopes full_pool_demo 0) ''T'') = Some 2" "(0::int) < 2"
    "pools (scopes full_pool_demo 0) ''T'' = Some [Obj 1, Obj 0]"
    "(2::int) \<le> int (length [Obj 1, Obj 0])"
    by (simp_all add: full_pool_demo_def eval_defs)
  note t = pool_rotation [OF a b c, where n = 0 and args = "[]" and ?st0.0 = full_pool_demo
      and ?s0.0 = 0 and ?T0.0 = "''T''" and cap = 2 and cached = "[Obj 1, Obj 0]" and m = 0
      and ?h0.0 = None]
  have m: "makes 3 (provide 0 ''T'' (\<lambda>h. New h []) (Some \<lparr>singleton = None, pool = Some 2\<rparr>) root)
      [(0, ''T''), (0, ''T''), (0, ''T''), (0, ''T''), (0, ''T'')]
     = Some [Inr (Obj 0), Inr (Obj 1), Inr (Obj 0), Inr (Obj 1), Inr (Obj 0)]"
    using t [THEN conjunct1] unfolding d numeral_3_eq_3 One_nat_def .
  have r: "make (Suc 0) full_pool_demo 0 ''T'' None
     = Some (upd_scope 0 (\<lambda>sc. sc\<lparr>pools := (pools sc)(''T'' \<mapsto> last [Obj 1, Obj 0] # butlast [Obj 1, Obj 0])\<rparr>)
               full_pool_demo, Inr (last [Obj 1, Obj 0]))"
    using t [THEN conjunct2] f by blast
  have r': "make (Suc 0) full_pool_demo 0 ''T'' None
     = Some (upd_scope 0 (\<lambda>sc. sc\<lparr>pools := (pools sc)(''T'' \<mapsto> [Obj 0, Obj 1])\<rparr>) full_pool_demo,
             Inr (Obj 0))"
    using r by simp
  show ?thesis using a b c m f r' by (intro conjI)
qed

section \<open>Singletons, per scope\<close>




section \<open>Unwinding the resolution stack\<close>

text \<open>
  C6. Whenever a \<^verbatim>\<open>make\<close> call comes back, with a value or with an exception, the
  resolution stack of every scope is what it was before the call: each push of
  \<^verbatim>\<open>#make\<close> has been undone by its \<^verbatim>\<open>finally\<close>. And an exception comes out as it was
  thrown: when the provider that resolution selects throws \<open>e\<close> (a \<^verbatim>\<open>throw\<close> in its own
  body or in anything it makes), \<^verbatim>\<open>make\<close> throws \<open>e\<close>.
\<close>

theorem stack_restored:
  "(make n st s tok h = Some (st', r) \<longrightarrow>
      (\<forall>p. makeStack (scopes st' p) = makeStack (scopes st p))) \<and>
   (spec_resolve n st s tok h = Some (Invoke m st1 c body) \<and> run m st1 c body = Some (st2, Inl e)
      \<longrightarrow> map_option snd (make n st s tok h) = Some (Inl e)) \<and>
   run (Suc n) st c (Throw e) = Some (st, Inl e)"
proof (intro conjI impI allI)
  fix p
  assume "make n st s tok h = Some (st', r)"
  then have "stacks st' = stacks st" by (rule make_stacks)
  then show "makeStack (scopes st' p) = makeStack (scopes st p)"
    by (simp add: stacks_def fun_eq_iff)
next
  assume "spec_resolve n st s tok h = Some (Invoke m st1 c body) \<and> run m st1 c body = Some (st2, Inl e)"
  then show "map_option snd (make n st s tok h) = Some (Inl e)"
    by (simp add: make_resolve spec_outcome_def)
next
  show "run (Suc n) st c (Throw e) = Some (st, Inl e)" by simp
qed

theorem stack_restored_witness:
  "map_option snd (make 6 throw_demo 0 ''U'' None) = Some (Inl (Thrown 7)) \<and>
   makeStack (scopes (fst (the (make 6 throw_demo 0 ''U'' None))) 0) = makeStack (scopes throw_demo 0) \<and>
   makeStack (scopes throw_demo 0) = [] \<and>
   spec_resolve 6 throw_demo 0 ''T'' None
     = Some (Invoke 4 (upd_scope 0 (\<lambda>sc. sc\<lparr>makeStack := makeStack sc @ [''T'']\<rparr>) throw_demo) 0
               (Throw (Thrown 7))) \<and>
   run 4 (upd_scope 0 (\<lambda>sc. sc\<lparr>makeStack := makeStack sc @ [''T'']\<rparr>) throw_demo) 0 (Throw (Thrown 7))
     = Some (upd_scope 0 (\<lambda>sc. sc\<lparr>makeStack := makeStack sc @ [''T'']\<rparr>) throw_demo, Inl (Thrown 7)) \<and>
   map_option snd (make 6 throw_demo 0 ''T'' None) = Some (Inl (Thrown 7))"
proof -
  let ?st1 = "upd_scope 0 (\<lambda>sc. sc\<lparr>makeStack := makeStack sc @ [''T'']\<rparr>) throw_demo"
  have ev: "make 6 throw_demo 0 ''U'' None \<noteq> None"
    "map_option snd (make 6 throw_demo 0 ''U'' None) = Some (Inl (Thrown 7))"
    by (simp_all add: throw_demo_def eval_defs eval_nat_numeral)
  then have m: "make 6 throw_demo 0 ''U'' None
      = Some (fst (the (make 6 throw_demo 0 ''U'' None)), Inl (Thrown 7))"
    by (cases "make 6 throw_demo 0 ''U'' None") auto
  have a: "makeStack (scopes (fst (the (make 6 throw_demo 0 ''U'' None))) 0) = makeStack (scopes throw_demo 0)"
    using stack_restored [of 6 throw_demo 0 "''U''" None "fst (the (make 6 throw_demo 0 ''U'' None))" "Inl (Thrown 7)"] m
    by blast
  have b: "makeStack (scopes throw_demo 0) = []"
    by (simp add: throw_demo_def eval_defs)
  have c: "spec_resolve 6 throw_demo 0 ''T'' None = Some (Invoke 4 ?st1 0 (Throw (Thrown 7)))"
    by (simp add: throw_demo_def eval_defs eval_nat_numeral)
  have d: "run 4 ?st1 0 (Throw (Thrown 7)) = Some (?st1, Inl (Thrown 7))"
    by (simp add: eval_nat_numeral)
  have e: "map_option snd (make 6 throw_demo 0 ''T'' None) = Some (Inl (Thrown 7))"
    using stack_restored [of 6 throw_demo 0 "''T''" None _ _ 4 ?st1 0 "Throw (Thrown 7)" ?st1 "Thrown 7"] c d
    by blast
  show ?thesis using ev(2) a b c d e by (intro conjI)
qed


section \<open>The missing-provider error\<close>

text \<open>
  C7, as stated: \<^verbatim>\<open>make(token)\<close> fails with a missing-provider error exactly when
  resolution finds no provider for the (possibly aliased) token. In \<open>dep_demo\<close>, which
  has no alias at all, a provider is registered for \<open>A\<close> and resolution finds it, under
  either reading of the alias step, yet \<^verbatim>\<open>make("A")\<close> fails with the missing-provider
  error of the \<open>B\<close> that the provider of \<open>A\<close> asks for.
\<close>

theorem missing_provider_counterexample:
  "missing_provider_error (map_option snd (make 6 dep_demo 0 ''A'' None)) \<and>
   map_option snd (make 6 dep_demo 0 ''A'' None) = Some (Inl (Error ''No provider for B'')) \<and>
   \<not> finds_no_provider (spec_lookup 6 dep_demo 0 ''A'' None) \<and>
   \<not> finds_no_provider (spec_resolve 6 dep_demo 0 ''A'' None) \<and>
   map_option (is_nested \<circ> fst) (provider_failure (spec_lookup 6 dep_demo 0 ''A'' None)) = Some True \<and>
   providers (scopes dep_demo 0) ''A'' \<noteq> None \<and>
   aliases dep_demo = (\<lambda>p t. None)"
  by (simp add: missing_provider_error_def finds_no_provider_def provider_failure_def is_nested_def
        dep_demo_def eval_defs aliases_def fun_eq_iff eval_nat_numeral)

text \<open>
  C7, amended. Take a \<^verbatim>\<open>make\<close> call whose resolution does not meet an alias held by a
  proper ancestor of the scope it is made on. Its outcome is the outcome the
  specification attaches to the resolution of the token: a recycled instance, a
  placeholder, the error \<^verbatim>\<open>No provider for\<close> followed by the token up to its first
  \<^verbatim>\<open>@\<close> when no provider is found, and otherwise whatever the call of the provider
  found gives. So \<^verbatim>\<open>make\<close> fails with a missing-provider error exactly when resolution
  finds no provider, or when it finds one and the call of that provider fails with an
  error of that form. Such a failure of the provider call propagates unmodified, and
  it has one of two origins: a \<^verbatim>\<open>make\<close> call that the provider performed on its
  container and that itself failed with this error, or a \<^verbatim>\<open>throw\<close> in the provider's own
  code of an \<^verbatim>\<open>Error\<close> with such a message, which the container cannot tell apart.
\<close>

theorem missing_provider_iff:
  assumes "\<not> ancestor_alias n st s tok"
  shows "map_option snd (make n st s tok h) = spec_outcome (spec_lookup n st s tok h) \<and>
   (missing_provider_error (map_option snd (make n st s tok h)) \<longleftrightarrow>
      finds_no_provider (spec_lookup n st s tok h) \<or>
      (\<exists>og e. provider_failure (spec_lookup n st s tok h) = Some (og, e) \<and>
          missing_provider_error (Some (Inl e)))) \<and>
   (\<forall>og e. provider_failure (spec_lookup n st s tok h) = Some (og, e) \<longrightarrow>
      map_option snd (make n st s tok h) = Some (Inl e) \<and>
      (case og of
         OwnThrow \<Rightarrow> True
       | NestedMake k st2 c t h2 \<Rightarrow> map_option snd (make k st2 c t h2) = Some (Inl e))) \<and>
   (spec_lookup n st s tok h = Some (Missing t) \<longrightarrow>
      map_option snd (make n st s tok h) = Some (Inl (Error (''No provider for '' @ display_name t)))) \<and>
   (CHR ''@'' \<notin> set name \<longrightarrow> display_name (name @ CHR ''@'' # suffix) = name \<and> display_name name = name)"
proof (intro conjI impI allI)
  show eq: "map_option snd (make n st s tok h) = spec_outcome (spec_lookup n st s tok h)"
    using assms by (rule make_lookup)
  show "missing_provider_error (map_option snd (make n st s tok h)) \<longleftrightarrow>
      finds_no_provider (spec_lookup n st s tok h) \<or>
      (\<exists>og e. provider_failure (spec_lookup n st s tok h) = Some (og, e) \<and>
          missing_provider_error (Some (Inl e)))"
  proof (cases "spec_lookup n st s tok h")
    case None
    then show ?thesis
      by (simp add: eq spec_outcome_def missing_provider_error_def finds_no_provider_def
            provider_failure_def)
  next
    case (Some res)
    show ?thesis
    proof (cases res)
      case (Invoke m st1 c body)
      then show ?thesis
        using Some missing_run [of m st1 c body]
        by (simp add: eq spec_outcome_def finds_no_provider_def provider_failure_def)
    qed (use Some in \<open>simp_all add: eq spec_outcome_def missing_provider_error_def
           finds_no_provider_def provider_failure_def\<close>)
  qed
  {
    fix og e
    assume pf: "provider_failure (spec_lookup n st s tok h) = Some (og, e)"
    show "map_option snd (make n st s tok h) = Some (Inl e)"
      using failure_outcome [OF pf] by (simp add: eq)
    show "case og of
         OwnThrow \<Rightarrow> True
       | NestedMake k st2 c t h2 \<Rightarrow> map_option snd (make k st2 c t h2) = Some (Inl e)"
      using pf by (cases og) (auto dest: failure_nested)
  }
  {
    assume "spec_lookup n st s tok h = Some (Missing t)"
    then show "map_option snd (make n st s tok h) = Some (Inl (Error (''No provider for '' @ display_name t)))"
      by (simp add: eq spec_outcome_def)
  }
  {
    assume "CHR ''@'' \<notin> set name"
    then show "display_name (name @ CHR ''@'' # suffix) = name" and "display_name name = name"
      by (simp_all add: display_name_strip display_name_plain)
  }
qed

theorem missing_provider_iff_witness:
  "\<not> ancestor_alias 6 dep_demo 0 ''A'' \<and>
   (\<exists>k st2. provider_failure (spec_lookup 6 dep_demo 0 ''A'' None)
              = Some (NestedMake k st2 0 ''B'' None, Error ''No provider for B'') \<and>
            map_option snd (make k st2 0 ''B'' None) = Some (Inl (Error ''No provider for B''))) \<and>
   map_option snd (make 6 dep_demo 0 ''A'' None) = Some (Inl (Error ''No provider for B'')) \<and>
   missing_provider_error (map_option snd (make 6 dep_demo 0 ''A'' None)) \<and>
   \<not> ancestor_alias 4 root 0 ''Unknown@src/app.ts'' \<and>
   spec_lookup 4 root 0 ''Unknown@src/app.ts'' None = Some (Missing ''Unknown@src/app.ts'') \<and>
   map_option snd (make 4 root 0 ''Unknown@src/app.ts'' None) = Some (Inl (Error ''No provider for Unknown'')) \<and>
   missing_provider_error (map_option snd (make 4 root 0 ''Unknown@src/app.ts'' None)) \<and>
   CHR ''@'' \<notin> set ''Unknown'' \<and> display_name ''Unknown@src/app.ts'' = ''Unknown''"
proof -
  have na: "\<not> ancestor_alias 6 dep_demo 0 ''A''"
    by (simp add: dep_demo_def eval_defs eval_nat_numeral)
  obtain k st2 where pf: "provider_failure (spec_lookup 6 dep_demo 0 ''A'' None)
              = Some (NestedMake k st2 0 ''B'' None, Error ''No provider for B'')"
    by (simp add: provider_failure_def dep_demo_def eval_defs eval_nat_numeral)
  note t = missing_provider_iff [OF na, of None]
  have nested: "map_option snd (make k st2 0 ''B'' None) = Some (Inl (Error ''No provider for B''))"
    and out: "map_option snd (make 6 dep_demo 0 ''A'' None) = Some (Inl (Error ''No provider for B''))"
    using t [THEN conjunct2, THEN conjunct2, THEN conjunct1, THEN spec, THEN spec, THEN mp, OF pf]
    by simp_all
  have mpe: "missing_provider_error (Some (Inl (Error ''No provider for B'')))"
    by (simp add: missing_provider_error_def)
  have err: "missing_provider_error (map_option snd (make 6 dep_demo 0 ''A'' None))"
    using t [THEN conjunct2, THEN conjunct1, THEN iffD2] pf mpe by blast
  have nb: "\<not> ancestor_alias 4 root 0 ''Unknown@src/app.ts''"
    by (simp add: eval_defs eval_nat_numeral)
  have a: "spec_lookup 4 root 0 ''Unknown@src/app.ts'' None = Some (Missing ''Unknown@src/app.ts'')"
    by (simp add: eval_defs eval_nat_numeral)
  have d: "display_name ''Unknown@src/app.ts'' = ''Unknown''"
    by (simp add: display_name_def)
  have at: "CHR ''@'' \<notin> set ''Unknown''" by simp
  note u = missing_provider_iff [OF nb, of None "''Unknown@src/app.ts''" "''Unknown''" "''src/app.ts''"]
  have b: "map_option snd (make 4 root 0 ''Unknown@src/app.ts'' None) = Some (Inl (Error ''No provider for Unknown''))"
    using u [THEN conjunct2, THEN conjunct2, THEN conjunct2, THEN conjunct1, THEN mp, OF a]
    by (simp add: d)
  have fn: "finds_no_provider (spec_lookup 4 root 0 ''Unknown@src/app.ts'' None)"
    by (simp add: a finds_no_provider_def)
  have c: "missing_provider_error (map_option snd (make 4 root 0 ''Unknown@src/app.ts'' None))"
    using u [THEN conjunct2, THEN conjunct1, THEN iffD2] fn by blast
  have ex: "\<exists>k st2. provider_failure (spec_lookup 6 dep_demo 0 ''A'' None)
              = Some (NestedMake k st2 0 ''B'' None, Error ''No provider for B'') \<and>
            map_option snd (make k st2 0 ''B'' None) = Some (Inl (Error ''No provider for B''))"
    using pf nested by blast
  show ?thesis using na ex out err nb a b c at d by (intro conjI)
qed


section \<open>Placeholders are never cached\<close>

text \<open>
  C8. In every state a program can reach from the initial one, by creating scopes,
  registering providers and aliases, making instances and operating on placeholders,
  no instance cache of any scope holds a placeholder.
\<close>

theorem no_placeholder_cached:
  assumes "reachable st" "pools (scopes st s) tok = Some is" "v \<in> set is"
  shows "\<not> isLazy v"
  using reachable_pools_ok [OF assms(1)] assms(2,3) by (auto simp: pools_ok_def)

theorem no_placeholder_cached_witness:
  "reachable (fst (the (make 3 singleton_demo 0 ''T'' None))) \<and>
   pools (scopes (fst (the (make 3 singleton_demo 0 ''T'' None))) 0) ''T'' = Some [Obj 0] \<and>
   Obj 0 \<in> set [Obj 0] \<and> \<not> isLazy (Obj 0)"
proof -
  let ?st = "fst (the (make 3 singleton_demo 0 ''T'' None))"
  have r0: "reachable root"
    unfolding root_def by (rule r_create [OF r_init])
  have r1: "reachable singleton_demo"
    unfolding singleton_demo_def by (rule r_provide [OF r0]) (simp add: root_def create_def init_def)
  have ev: "map_option snd (make 3 singleton_demo 0 ''T'' None) = Some (Inr (Obj 0))"
    by (simp add: singleton_demo_def eval_defs eval_nat_numeral)
  then have m: "make 3 singleton_demo 0 ''T'' None = Some (?st, Inr (Obj 0))"
    by (cases "make 3 singleton_demo 0 ''T'' None") auto
  have r2: "reachable ?st"
    by (rule r_make [OF r1 _ m]) (simp add: singleton_demo_def eval_defs)
  have p: "pools (scopes ?st 0) ''T'' = Some [Obj 0]"
    by (simp add: singleton_demo_def eval_defs eval_nat_numeral)
  have i: "Obj 0 \<in> set [Obj 0]" by simp
  show ?thesis
    using r2 p i no_placeholder_cached [OF r2 p i] by (intro conjI)
qed

section \<open>Which caches a call touches\<close>

text \<open>
  Where no proper ancestor of \<open>S\<close> holds an alias, a \<^verbatim>\<open>make\<close> on \<open>S\<close> is local to
  \<open>S\<close>: the delegation to the parent and the call of the provider both pass
  \<open>container\<close> on. The call leaves the cache of every other scope as it was, whichever
  ancestor the provider comes from, and it does not read the policies and caches of
  the other scopes: erasing them beforehand changes neither what the call returns nor
  the state it leaves, up to that erasure.
\<close>

theorem other_caches_untouched:
  assumes "\<forall>p t. on_chain (parents st) S p \<and> p \<noteq> S \<longrightarrow> alias_of (scopes st p) t = None"
  shows "(make n st S tok h = Some (st', r) \<and> p \<noteq> S \<longrightarrow> pools (scopes st' p) = pools (scopes st p)) \<and>
     make n (mask S st) S tok h = map_option (apfst (mask S)) (make n st S tok h)"
proof (intro conjI impI)
  have al: "\<And>p t. on_chain (parents st) S p \<Longrightarrow> p \<noteq> S \<Longrightarrow> aliases st p t = None"
    using assms by (simp add: aliases_def)
  show "make n (mask S st) S tok h = map_option (apfst (mask S)) (make n st S tok h)"
    by (rule make_mask [OF al])
  assume a: "make n st S tok h = Some (st', r) \<and> p \<noteq> S"
  then have "other_pools S st' = other_pools S st"
    using make_others [OF _ al] by blast
  then have "other_pools S st' p = other_pools S st p" by simp
  then show "pools (scopes st' p) = pools (scopes st p)" using a by (simp add: other_pools_def)
qed

theorem other_caches_untouched_witness:
  "map_option snd (make 5 scoped_demo 1 ''T'' None) = Some (Inr (Obj 0)) \<and>
   aliases scoped_demo = (\<lambda>p t. None) \<and>
   on_chain (parents scoped_demo) 1 0 \<and> (0::nat) \<noteq> 1 \<and>
   bindOptions (scopes scoped_demo 0) ''T'' = Some \<lparr>singleton = Some True, pool = None\<rparr> \<and>
   pools (scopes (fst (the (make 5 scoped_demo 1 ''T'' None))) 0) = pools (scopes scoped_demo 0) \<and>
   pools (scopes scoped_demo 0) ''T'' = None \<and>
   make 5 (mask 1 scoped_demo) 1 ''T'' None = map_option (apfst (mask 1)) (make 5 scoped_demo 1 ''T'' None) \<and>
   bindOptions (scopes (mask 1 scoped_demo) 0) ''T'' = None"
proof -
  let ?st = "fst (the (make 5 scoped_demo 1 ''T'' None))"
  have ev: "map_option snd (make 5 scoped_demo 1 ''T'' None) = Some (Inr (Obj 0))"
    by (simp add: scoped_demo_def singleton_demo_def eval_defs eval_nat_numeral)
  then have m: "make 5 scoped_demo 1 ''T'' None = Some (?st, Inr (Obj 0))"
    by (cases "make 5 scoped_demo 1 ''T'' None") auto
  have al0: "aliases scoped_demo = (\<lambda>p t. None)"
    by (simp add: aliases_def fun_eq_iff scoped_demo_def singleton_demo_def eval_defs)
  have al: "\<forall>p t. on_chain (parents scoped_demo) 1 p \<and> p \<noteq> 1 \<longrightarrow> alias_of (scopes scoped_demo p) t = None"
    using al0 by (simp add: aliases_def fun_eq_iff)
  have ch: "on_chain (parents scoped_demo) 1 0"
    by (rule chain_parent [OF chain_self]) (simp add: parents_def scoped_demo_def singleton_demo_def eval_defs)
  have ne: "(0::nat) \<noteq> 1" by simp
  have bo: "bindOptions (scopes scoped_demo 0) ''T'' = Some \<lparr>singleton = Some True, pool = None\<rparr>"
    "pools (scopes scoped_demo 0) ''T'' = None"
    by (simp_all add: scoped_demo_def singleton_demo_def eval_defs)
  have mb: "bindOptions (scopes (mask 1 scoped_demo) 0) ''T'' = None"
    by (simp add: mask_def erase_def)
  note t = other_caches_untouched [OF al, of 5 "''T''" None ?st "Inr (Obj 0)" 0]
  have p: "pools (scopes ?st 0) = pools (scopes scoped_demo 0)"
    using t [THEN conjunct1] m ne by blast
  show ?thesis
    using ev al0 ch ne bo p t [THEN conjunct2] mb by (intro conjI)
qed


text \<open>
  C9. The claim is that a \<^verbatim>\<open>make\<close> on a scope never uses the policy or the cache of
  an ancestor, also when the alias lookup is delegated to the ancestor. It fails at
  the alias step: where \<^verbatim>\<open>#make\<close> runs on an ancestor and finds an alias there, it
  calls \<^verbatim>\<open>this.make(binding)\<close>, the public \<^verbatim>\<open>make\<close> of the ancestor, instead of going on
  with \<open>container\<close>. In \<open>parent_alias_demo\<close> scope 1 has no policy at all; its parent,
  scope 0, aliases \<open>A\<close> to the singleton \<open>C\<close>. \<^verbatim>\<open>make("A")\<close> on scope 1 puts the
  instance into the cache of scope 0, and a second \<^verbatim>\<open>make("A")\<close> on scope 1 is served
  from it. In \<open>child_provider_demo\<close> scope 1 provides \<open>C\<close> itself, as class 1, and
  \<^verbatim>\<open>make("A")\<close> on scope 1 still returns the \<open>C\<close> of scope 0 and caches it there. In
  \<open>child_only_demo\<close> only scope 1 provides \<open>C\<close>, and \<^verbatim>\<open>make("A")\<close> on scope 1 fails
  with \<^verbatim>\<open>No provider for C\<close>, where resolving the alias on the scope the call was made
  on gives an instance.
\<close>

theorem ancestor_alias_uses_ancestor_cache:
  "parent (scopes parent_alias_demo 1) = Some 0 \<and>
   pools (scopes parent_alias_demo 0) ''C'' = None \<and>
   bindOptions (scopes parent_alias_demo 1) ''A'' = None \<and>
   bindOptions (scopes parent_alias_demo 1) ''C'' = None \<and>
   makes 8 parent_alias_demo [(1, ''A''), (1, ''A'')] = Some [Inr (Obj 0), Inr (Obj 0)] \<and>
   pools (scopes (fst (the (make 8 parent_alias_demo 1 ''A'' None))) 0) ''C'' = Some [Obj 0] \<and>
   pools (scopes (fst (the (make 8 parent_alias_demo 1 ''A'' None))) 1) ''C'' = None \<and>
   providers (scopes child_provider_demo 1) ''C'' \<noteq> None \<and>
   map_option snd (make 8 child_provider_demo 1 ''A'' None) = Some (Inr (Obj 0)) \<and>
   heap (fst (the (make 8 child_provider_demo 1 ''A'' None))) = [\<lparr>cls = None, slots = []\<rparr>] \<and>
   pools (scopes (fst (the (make 8 child_provider_demo 1 ''A'' None))) 0) ''C'' = Some [Obj 0] \<and>
   map_option snd (make 8 child_provider_demo 1 ''C'' None) = Some (Inr (Obj 0)) \<and>
   heap (fst (the (make 8 child_provider_demo 1 ''C'' None))) = [\<lparr>cls = Some 1, slots = []\<rparr>] \<and>
   providers (scopes child_only_demo 1) ''C'' \<noteq> None \<and>
   map_option snd (make 8 child_only_demo 1 ''A'' None) = Some (Inl (Error ''No provider for C'')) \<and>
   map_option snd (make 8 child_only_demo 1 ''C'' None) = Some (Inr (Obj 0)) \<and>
   spec_outcome (spec_lookup 8 child_only_demo 1 ''A'' None) = Some (Inr (Obj 0)) \<and>
   ancestor_alias 8 parent_alias_demo 1 ''A'' \<and>
   ancestor_alias 8 child_provider_demo 1 ''A'' \<and>
   ancestor_alias 8 child_only_demo 1 ''A''"
  by (simp add: parent_alias_demo_def child_provider_demo_def child_only_demo_def spec_outcome_def
        eval_defs eval_nat_numeral)

section \<open>The singleton key\<close>

text \<open>
  C10. Options that have the key \<^verbatim>\<open>singleton\<close>, whatever its boolean value, give
  capacity 1, through \<^verbatim>\<open>provide\<close> and through \<^verbatim>\<open>bind\<close>; so with
  \<^verbatim>\<open>{singleton: false}\<close> too, successive \<^verbatim>\<open>make\<close> calls return one and the same instance.
\<close>

theorem singleton_key_capacity:
  assumes "singleton opts = Some b"
    and "alias_of (scopes st s) T = None" "T \<notin> set (makeStack (scopes st s))"
        "pools (scopes st s) T = None"
  shows "capacity (Some opts) = Some 1 \<and>
     capacity (bindOptions (scopes (provide s T f (Some opts) st) s) T) = Some 1 \<and>
     capacity (bindOptions (scopes (bind s (Some opts) T C ch st) s) T) = Some 1 \<and>
     makes (Suc (Suc (Suc n))) (provide s T (\<lambda>h. New h args) (Some opts) st)
         [(s, T), (s, T), (s, T)]
       = Some [Inr (Obj (length (heap st))), Inr (Obj (length (heap st))),
               Inr (Obj (length (heap st)))]"
  using assms
  by (simp add: provide_def bind_def upd_scope_def caching_def capacity_def alloc_def Let_def)

theorem singleton_key_capacity_witness:
  "singleton \<lparr>singleton = Some False, pool = None\<rparr> = Some False \<and>
   alias_of (scopes root 0) ''T'' = None \<and> ''T'' \<notin> set (makeStack (scopes root 0)) \<and>
   pools (scopes root 0) ''T'' = None \<and>
   capacity (Some \<lparr>singleton = Some False, pool = None\<rparr>) = Some 1 \<and>
   makes 3 (provide 0 ''T'' (\<lambda>h. New h []) (Some \<lparr>singleton = Some False, pool = None\<rparr>) root)
      [(0, ''T''), (0, ''T''), (0, ''T'')]
     = Some [Inr (Obj 0), Inr (Obj 0), Inr (Obj 0)]"
proof -
  have o: "singleton \<lparr>singleton = Some False, pool = None\<rparr> = Some False" by simp
  have a: "alias_of (scopes root 0) ''T'' = None" by (simp add: root_def create_def init_def)
  have b: "''T'' \<notin> set (makeStack (scopes root 0))" by (simp add: root_def create_def init_def new_scope_def)
  have c: "pools (scopes root 0) ''T'' = None" by (simp add: root_def create_def init_def new_scope_def)
  have d: "length (heap root) = 0" by (simp add: root_def create_def init_def)
  note t = singleton_key_capacity [OF o a b c, where n = 0 and args = "[]"]
  have m: "makes 3 (provide 0 ''T'' (\<lambda>h. New h []) (Some \<lparr>singleton = Some False, pool = None\<rparr>) root)
      [(0, ''T''), (0, ''T''), (0, ''T'')] = Some [Inr (Obj 0), Inr (Obj 0), Inr (Obj 0)]"
    using t [THEN conjunct2, THEN conjunct2, THEN conjunct2] unfolding d numeral_3_eq_3 .
  show ?thesis
    using o a b c m t [THEN conjunct1] by (intro conjI)
qed

end
